theory Spec2Isabelle
  imports Main "HOL-Library.Word" "HOL-Library.Signed_Division"
begin

unbundle bit_operations_syntax

section \<open>Constants of nbd.go\<close>

type_synonym byte = "8 word"
type_synonym uint32 = "32 word"
type_synonym uint64 = "64 word"
type_synonym uintptr = "64 word"

definition BLKROSET :: uintptr where "BLKROSET = 4701"
definition NBD_SET_SOCK :: uintptr where "NBD_SET_SOCK = 43776"
definition NBD_SET_BLKSIZE :: uintptr where "NBD_SET_BLKSIZE = 43777"
definition NBD_SET_SIZE :: uintptr where "NBD_SET_SIZE = 43778"
definition NBD_DO_IT :: uintptr where "NBD_DO_IT = 43779"
definition NBD_CLEAR_SOCK :: uintptr where "NBD_CLEAR_SOCK = 43780"
definition NBD_CLEAR_QUE :: uintptr where "NBD_CLEAR_QUE = 43781"
definition NBD_PRINT_DEBUG :: uintptr where "NBD_PRINT_DEBUG = 43782"
definition NBD_SET_SIZE_BLOCKS :: uintptr where "NBD_SET_SIZE_BLOCKS = 43783"
definition NBD_DISCONNECT :: uintptr where "NBD_DISCONNECT = 43784"
definition NBD_SET_TIMEOUT :: uintptr where "NBD_SET_TIMEOUT = 43785"
definition NBD_SET_FLAGS :: uintptr where "NBD_SET_FLAGS = 43786"

definition NBD_CMD_READ :: uint32 where "NBD_CMD_READ = 0"
definition NBD_CMD_WRITE :: uint32 where "NBD_CMD_WRITE = 1"
definition NBD_CMD_DISC :: uint32 where "NBD_CMD_DISC = 2"
definition NBD_CMD_FLUSH :: uint32 where "NBD_CMD_FLUSH = 3"
definition NBD_CMD_TRIM :: uint32 where "NBD_CMD_TRIM = 4"

definition NBD_REQUEST_MAGIC :: uint32 where "NBD_REQUEST_MAGIC = 0x25609513"
definition NBD_REPLY_MAGIC :: uint32 where "NBD_REPLY_MAGIC = 0x67446698"

lemmas nbd_cmds =
  NBD_CMD_READ_def NBD_CMD_WRITE_def NBD_CMD_DISC_def NBD_CMD_FLUSH_def NBD_CMD_TRIM_def

lemmas nbd_magics = NBD_REQUEST_MAGIC_def NBD_REPLY_MAGIC_def

lemmas nbd_ioctls =
  BLKROSET_def NBD_SET_SOCK_def NBD_SET_BLKSIZE_def NBD_SET_SIZE_BLOCKS_def
  NBD_SET_FLAGS_def NBD_DO_IT_def NBD_DISCONNECT_def NBD_CLEAR_SOCK_def

section \<open>Wire structures and big-endian codec\<close>

text \<open>
  The struct \<open>request\<close>. The field \<open>from\<close> is an Isar keyword and \<open>handle\<close> is also the
  name of the command loop, so both fields carry a prime here.
\<close>

record request =
  magic :: uint32
  typus :: uint32
  handle' :: uint64
  from' :: uint64
  len :: uint32

text \<open>The struct \<open>reply\<close>; the Go field \<open>error\<close> is called \<open>error'\<close> here.\<close>

record reply =
  rmagic :: uint32
  error' :: uint32
  rhandle :: uint64

text \<open>
  \<open>binary.BigEndian.Uint32\<close>, \<open>Uint64\<close> and \<open>PutUint32\<close>. The Go functions index their
  argument at fixed positions; every call in \<open>handle\<close> passes a slice of the scratch
  buffer that is long enough, so the index checks never fire there.
\<close>

definition Uint32 :: "byte list \<Rightarrow> uint32" where
  "Uint32 b = ucast (b ! 3) OR push_bit 8 (ucast (b ! 2)) OR push_bit 16 (ucast (b ! 1))
                OR push_bit 24 (ucast (b ! 0))"

definition Uint64 :: "byte list \<Rightarrow> uint64" where
  "Uint64 b = ucast (b ! 7) OR push_bit 8 (ucast (b ! 6)) OR push_bit 16 (ucast (b ! 5))
                OR push_bit 24 (ucast (b ! 4)) OR push_bit 32 (ucast (b ! 3))
                OR push_bit 40 (ucast (b ! 2)) OR push_bit 48 (ucast (b ! 1))
                OR push_bit 56 (ucast (b ! 0))"

definition PutUint32 :: "uint32 \<Rightarrow> byte list" where
  "PutUint32 v = [ucast (drop_bit 24 v), ucast (drop_bit 16 v), ucast (drop_bit 8 v), ucast v]"

text \<open>Go slicing \<open>b[lo:hi]\<close>: it panics unless \<open>0 \<le> lo \<le> hi \<le> cap(b)\<close>.\<close>

definition slice_ok :: "int \<Rightarrow> int \<Rightarrow> byte list \<Rightarrow> bool" where
  "slice_ok lo hi b = (0 \<le> lo \<and> lo \<le> hi \<and> hi \<le> int (length b))"

definition slice :: "byte list \<Rightarrow> nat \<Rightarrow> nat \<Rightarrow> byte list" where
  "slice b lo hi = take (hi - lo) (drop lo b)"

text \<open>Storing bytes into the buffer from position \<open>off\<close> on; the length is unchanged.\<close>

definition store :: "byte list \<Rightarrow> nat \<Rightarrow> byte list \<Rightarrow> byte list" where
  "store b off bs = take off b @ bs @ drop (off + length bs) b"

text \<open>The five decoding assignments at the head of the loop body.\<close>

definition decode :: "byte list \<Rightarrow> request" where
  "decode b = \<lparr> magic = Uint32 b,
               typus = Uint32 (slice b 4 8),
               handle' = Uint64 (slice b 8 16),
               from' = Uint64 (slice b 16 24),
               len = Uint32 (slice b 24 28) \<rparr>"

text \<open>
  Reading a reply header back from the bytes handed to \<open>syscall.Write\<close>: the layout the
  loop writes (magic at 0, error at 4, handle at 8). Used to state what a reply says.
\<close>

definition reply_of :: "byte list \<Rightarrow> reply" where
  "reply_of b = \<lparr> rmagic = Uint32 b, error' = Uint32 (slice b 4 8),
                 rhandle = Uint64 (slice b 8 16) \<rparr>"

section \<open>The transport and the device\<close>

text \<open>
  What the peer of the socket does: a script of deliveries. \<open>Data bs\<close> makes \<open>bs\<close>
  available to the next reads (an empty \<open>bs\<close> is a read that returns 0), \<open>Fail\<close> makes
  one read fail. When the script is used up the next read blocks for good.
\<close>

datatype delivery = Data "byte list" | Fail

text \<open>
  \<open>syscall.Read(fd, p)\<close> with \<open>len(p) = k\<close>: the count returned (-1 on failure), the
  bytes stored at the start of \<open>p\<close>, and the rest of the script; \<open>None\<close> when the call
  never returns. A read of zero bytes returns 0 at once.
\<close>

definition sys_read :: "nat \<Rightarrow> delivery list \<Rightarrow> (int \<times> byte list \<times> delivery list) option" where
  "sys_read k ds =
     (if k = 0 then Some (0, [], ds)
      else case ds of
             [] \<Rightarrow> None
           | Fail # ds' \<Rightarrow> Some (- 1, [], ds')
           | Data bs # ds' \<Rightarrow>
               if length bs \<le> k then Some (int (length bs), bs, ds')
               else Some (int k, take k bs, Data (drop k bs) # ds'))"

text \<open>
  The interface \<open>Device\<close> over a backing store of type \<open>'d\<close>. \<open>ReadAt\<close> gets the slice
  and the offset and answers the bytes it stored at the start of the slice, the count
  \<open>n\<close> and whether \<open>err\<close> is non-nil; \<open>WriteAt\<close> answers \<open>n\<close> and \<open>err\<close>.
\<close>

record 'd Device =
  ReadAt :: "'d \<Rightarrow> byte list \<Rightarrow> 64 word \<Rightarrow> (byte list \<times> int \<times> bool) \<times> 'd"
  WriteAt :: "'d \<Rightarrow> byte list \<Rightarrow> 64 word \<Rightarrow> (int \<times> bool) \<times> 'd"

text \<open>The calls the loop makes, in order.\<close>

datatype event =
    SysRead nat
  | SysWrite "byte list"
  | DevReadAt nat "64 word"
  | DevWriteAt "byte list" "64 word"

text \<open>
  The state of the loop: the scratch buffer, what the peer of the socket will still
  deliver, the backing store, and the calls made so far.
\<close>

record 'd state =
  buf :: "byte list"
  sock :: "delivery list"
  dev :: 'd
  trace :: "event list"

text \<open>
  How the loop ends: in a panic with its message, or in a read that never returns. A
  round of the loop either goes on with a new state or ends the loop.
\<close>

datatype outcome = Panic string | Blocked

datatype 'd step = Next (final: "'d state") | Halt outcome (final: "'d state")

definition slice_panic :: string where
  "slice_panic = ''runtime error: slice bounds out of range''"

text \<open>The size of a script; every read of at least one byte makes it smaller.\<close>

fun delivery_size :: "delivery \<Rightarrow> nat" where
  "delivery_size (Data bs) = Suc (length bs)"
| "delivery_size Fail = 1"

definition pending :: "delivery list \<Rightarrow> nat" where
  "pending ds = sum_list (map delivery_size ds)"

lemma sys_read_pending:
  "sys_read k ds = Some (n, bs, ds') \<Longrightarrow> pending ds' \<le> pending ds"
  by (auto simp: sys_read_def pending_def split: if_splits list.splits delivery.splits)

lemma sys_read_pending_less:
  "0 < k \<Longrightarrow> sys_read k ds = Some (n, bs, ds') \<Longrightarrow> pending ds' < pending ds"
  by (auto simp: sys_read_def pending_def split: if_splits list.splits delivery.splits)

section \<open>The command loop \<open>handle\<close>\<close>

text \<open>
  The inner loop of the write case, \<open>for uint32(n) < x.len\<close>: each round reads into
  \<open>buf[28+n : 28+x.len]\<close> and adds the count returned to \<open>n\<close>. The upper bound
  \<open>28+x.len\<close> is computed in \<open>uint32\<close> and wraps.
\<close>

lemma recv_gap:
  fixes l :: uint32
  assumes "word_of_int n < l" and "28 + n \<le> uint (28 + l)"
  shows "28 + n < uint (28 + l)"
proof (rule ccontr)
  assume "\<not> 28 + n < uint (28 + l)"
  with assms(2) have "28 + n = uint (28 + l)" by simp
  then have "(word_of_int (28 + n) :: uint32) = 28 + l" by simp
  then have "(word_of_int n :: uint32) = l" by simp
  with assms(1) show False by simp
qed

function recv_rest :: "uint32 \<Rightarrow> int \<Rightarrow> 'd state \<Rightarrow> 'd step" where
  "recv_rest l n s =
     (if (word_of_int n :: uint32) < l then
        (if \<not> slice_ok (28 + n) (uint (28 + l)) (buf s) then Halt (Panic slice_panic) s
         else
           (case sys_read (nat (uint (28 + l) - (28 + n))) (sock s) of
              None \<Rightarrow>
                Halt Blocked (s\<lparr>trace := trace s @ [SysRead (nat (uint (28 + l) - (28 + n)))]\<rparr>)
            | Some (m, bs, sk) \<Rightarrow>
                recv_rest l (n + m)
                  (s\<lparr>buf := store (buf s) (nat (28 + n)) bs, sock := sk,
                     trace := trace s @ [SysRead (nat (uint (28 + l) - (28 + n)))]\<rparr>)))
      else Next s)"
  by pat_completeness auto
termination
proof (relation "measure (\<lambda>(l, n, s). pending (sock s))")
  show "wf (measure (\<lambda>(l :: uint32, n :: int, s :: 'd state). pending (sock s)))"
    by simp
next
  fix l :: uint32 and n :: int and s :: "'d state" and x2 m y bs sk
  assume lt: "word_of_int n < l"
    and ok: "\<not> \<not> slice_ok (28 + n) (uint (28 + l)) (buf s)"
    and rd: "sys_read (nat (uint (28 + l) - (28 + n))) (sock s) = Some x2"
    and x2: "(m, y) = x2" and y: "(bs, sk) = y"
  from ok have "28 + n \<le> uint (28 + l)" by (simp add: slice_ok_def)
  with lt have "0 < nat (uint (28 + l) - (28 + n))"
    using recv_gap [of n l] by simp
  moreover from rd x2 y
  have "sys_read (nat (uint (28 + l) - (28 + n))) (sock s) = Some (m, bs, sk)" by simp
  ultimately have "pending sk < pending (sock s)" by (rule sys_read_pending_less)
  then show "((l, n + m, s\<lparr>buf := store (buf s) (nat (28 + n)) bs, sock := sk,
                 trace := trace s @ [SysRead (nat (uint (28 + l) - (28 + n)))]\<rparr>), l, n, s)
             \<in> measure (\<lambda>(l, n, s). pending (sock s))"
    by simp
qed

text \<open>The two \<open>PutUint32\<close> calls that turn the head of the buffer into a reply header.\<close>

definition put_reply :: "byte list \<Rightarrow> uint32 \<Rightarrow> byte list" where
  "put_reply b e = store (store b 0 (PutUint32 NBD_REPLY_MAGIC)) 4 (PutUint32 e)"

text \<open>
  \<open>case NBD_CMD_READ\<close>. The slice \<open>buf[16:16+x.len]\<close> is handed to \<open>ReadAt\<close>, whose
  results \<open>n\<close> and \<open>err\<close> are dropped; the device stores at most \<open>x.len\<close> bytes.
\<close>

definition cmd_read :: "'d Device \<Rightarrow> request \<Rightarrow> 'd state \<Rightarrow> 'd step" where
  "cmd_read d x s =
     (if \<not> slice_ok 16 (uint (16 + len x)) (buf s) then Halt (Panic slice_panic) s
      else
        (case ReadAt d (dev s) (slice (buf s) 16 (unat (16 + len x))) (from' x) of
           ((data, n, err), dv) \<Rightarrow>
             let b = put_reply (store (buf s) 16 (take (unat (16 + len x) - 16) data)) 0
             in Next (s\<lparr>buf := b, dev := dv,
                        trace := trace s @ [DevReadAt (unat (16 + len x) - 16) (from' x),
                                            SysWrite (slice b 0 (unat (16 + len x)))]\<rparr>)))"

text \<open>
  \<open>case NBD_CMD_WRITE\<close>: a first read into \<open>buf[28:28+x.len]\<close>, the loop above, then
  \<open>WriteAt\<close> on the same slice (results dropped) and a 16-byte reply.
\<close>

definition cmd_write :: "'d Device \<Rightarrow> request \<Rightarrow> 'd state \<Rightarrow> 'd step" where
  "cmd_write d x s =
     (if \<not> slice_ok 28 (uint (28 + len x)) (buf s) then Halt (Panic slice_panic) s
      else
        (case sys_read (unat (28 + len x) - 28) (sock s) of
           None \<Rightarrow> Halt Blocked (s\<lparr>trace := trace s @ [SysRead (unat (28 + len x) - 28)]\<rparr>)
         | Some (n, bs, sk) \<Rightarrow>
             (case recv_rest (len x) n
                     (s\<lparr>buf := store (buf s) 28 bs, sock := sk,
                        trace := trace s @ [SysRead (unat (28 + len x) - 28)]\<rparr>) of
                Halt out s' \<Rightarrow> Halt out s'
              | Next s' \<Rightarrow>
                  (case WriteAt d (dev s') (slice (buf s') 28 (unat (28 + len x))) (from' x) of
                     ((n', err), dv) \<Rightarrow>
                       let b = put_reply (buf s') 0
                       in Next (s'\<lparr>buf := b, dev := dv,
                                   trace := trace s' @
                                     [DevWriteAt (slice (buf s') 28 (unat (28 + len x))) (from' x),
                                      SysWrite (slice b 0 16)]\<rparr>)))))"

text \<open>\<open>case NBD_CMD_FLUSH\<close> falling through to \<open>case NBD_CMD_TRIM\<close>.\<close>

definition cmd_flush_trim :: "'d state \<Rightarrow> 'd step" where
  "cmd_flush_trim s =
     (let b = put_reply (buf s) 1
      in Next (s\<lparr>buf := b, trace := trace s @ [SysWrite (slice b 0 16)]\<rparr>))"

text \<open>
  The outer \<open>switch x.magic\<close> (the reply magic falls through to the request magic) and
  the inner \<open>switch x.typus\<close>.
\<close>

definition dispatch :: "'d Device \<Rightarrow> request \<Rightarrow> 'd state \<Rightarrow> 'd step" where
  "dispatch d x s =
     (if magic x = NBD_REPLY_MAGIC \<or> magic x = NBD_REQUEST_MAGIC then
        (if typus x = NBD_CMD_READ then cmd_read d x s
         else if typus x = NBD_CMD_WRITE then cmd_write d x s
         else if typus x = NBD_CMD_DISC then Halt (Panic ''Disconnect'') s
         else if typus x = NBD_CMD_FLUSH \<or> typus x = NBD_CMD_TRIM then cmd_flush_trim s
         else Halt (Panic ''unknown command'') s)
      else Halt (Panic ''Invalid packet'') s)"

text \<open>
  One round of the \<open>for\<close> loop: a single read into \<open>buf[0:28]\<close> (its results are
  dropped), the five decoding assignments, and the switches.
\<close>

definition handle_body :: "'d Device \<Rightarrow> 'd state \<Rightarrow> 'd step" where
  "handle_body d s =
     (if \<not> slice_ok 0 28 (buf s) then Halt (Panic slice_panic) s
      else
        (case sys_read 28 (sock s) of
           None \<Rightarrow> Halt Blocked (s\<lparr>trace := trace s @ [SysRead 28]\<rparr>)
         | Some (n, hb, sk) \<Rightarrow>
             (let s1 = s\<lparr>buf := store (buf s) 0 hb, sock := sk, trace := trace s @ [SysRead 28]\<rparr>
              in dispatch d (decode (buf s1)) s1)))"

declare recv_rest.simps [simp del]

lemma recv_rest_pending:
  "recv_rest l n s = Next s' \<Longrightarrow> pending (sock s') \<le> pending (sock s)"
proof (induction l n s rule: recv_rest.induct)
  case (1 l n s)
  show ?case
  proof (cases "(word_of_int n :: uint32) < l")
    case False
    with "1.prems" show ?thesis by (simp add: recv_rest.simps [of l n s])
  next
    case True
    note lt = this
    show ?thesis
    proof (cases "slice_ok (28 + n) (uint (28 + l)) (buf s)")
      case False
      with lt "1.prems" show ?thesis by (simp add: recv_rest.simps [of l n s])
    next
      case True
      note ok = this
      show ?thesis
      proof (cases "sys_read (nat (uint (28 + l) - (28 + n))) (sock s)")
        case None
        with lt ok "1.prems" show ?thesis by (simp add: recv_rest.simps [of l n s])
      next
        case (Some r)
        obtain m bs sk where r: "r = (m, bs, sk)" by (cases r)
        let ?s = "s\<lparr>buf := store (buf s) (nat (28 + n)) bs, sock := sk,
                     trace := trace s @ [SysRead (nat (uint (28 + l) - (28 + n)))]\<rparr>"
        from lt ok Some r "1.prems" have "recv_rest l (n + m) ?s = Next s'"
          by (simp add: recv_rest.simps [of l n s])
        then have "pending (sock s') \<le> pending (sock ?s)"
        proof (rule "1.IH" [rotated -1])
          show "word_of_int n < l" by (rule lt)
          show "\<not> \<not> slice_ok (28 + n) (uint (28 + l)) (buf s)" using ok by simp
          show "sys_read (nat (uint (28 + l) - (28 + n))) (sock s) = Some r" by (rule Some)
          show "(m, bs, sk) = r" using r by simp
          show "(bs, sk) = (bs, sk)" by (rule refl)
        qed
        moreover from Some r have "pending sk \<le> pending (sock s)"
          by (auto dest: sys_read_pending)
        ultimately show ?thesis by simp
      qed
    qed
  qed
qed

lemma cmd_write_pending:
  "cmd_write d x s = Next s' \<Longrightarrow> pending (sock s') \<le> pending (sock s)"
  by (auto simp: cmd_write_def Let_def split: if_splits option.splits step.splits prod.splits
           dest!: recv_rest_pending sys_read_pending)

lemma handle_body_pending:
  assumes "handle_body d s = Next s'"
  shows "pending (sock s') < pending (sock s)"
proof -
  from assms obtain n hb sk where rd: "sys_read 28 (sock s) = Some (n, hb, sk)"
    by (auto simp: handle_body_def split: if_splits option.splits)
  then have less: "pending sk < pending (sock s)"
    by (auto dest: sys_read_pending_less [rotated])
  let ?s1 = "s\<lparr>buf := store (buf s) 0 hb, sock := sk, trace := trace s @ [SysRead 28]\<rparr>"
  from assms rd have "cmd_read d (decode (buf ?s1)) ?s1 = Next s'
      \<or> cmd_write d (decode (buf ?s1)) ?s1 = Next s' \<or> cmd_flush_trim ?s1 = Next s'"
    by (auto simp: handle_body_def dispatch_def Let_def split: if_splits)
  then have "pending (sock s') \<le> pending sk"
  proof (elim disjE)
    assume "cmd_read d (decode (buf ?s1)) ?s1 = Next s'"
    then show ?thesis
      by (auto simp: cmd_read_def Let_def split: if_splits prod.splits)
  next
    assume "cmd_write d (decode (buf ?s1)) ?s1 = Next s'"
    then show ?thesis by (auto dest: cmd_write_pending)
  next
    assume "cmd_flush_trim ?s1 = Next s'"
    then show ?thesis by (auto simp: cmd_flush_trim_def Let_def)
  qed
  with less show ?thesis by simp
qed

text \<open>
  The loop \<open>for { ... }\<close> has no exit of its own: it ends by a panic, or stays in a
  read that never returns.
\<close>

function handle_loop :: "'d Device \<Rightarrow> 'd state \<Rightarrow> outcome \<times> 'd state" where
  "handle_loop d s =
     (case handle_body d s of
        Halt out s' \<Rightarrow> (out, s')
      | Next s' \<Rightarrow> handle_loop d s')"
  by pat_completeness auto
termination
  by (relation "measure (\<lambda>(d, s). pending (sock s))") (auto dest: handle_body_pending)

text \<open>\<open>buf := make([]byte, 2<<19)\<close>: 1048576 zero bytes.\<close>

declare handle_loop.simps [simp del]

definition buf_size :: nat where
  "buf_size = 1048576"

definition handle :: "delivery list \<Rightarrow> 'd Device \<Rightarrow> 'd \<Rightarrow> outcome \<times> 'd state" where
  "handle fd d dv =
     handle_loop d \<lparr>buf = replicate buf_size 0, sock = fd, dev = dv, trace = []\<rparr>"

section \<open>The kernel binding \<open>Client\<close>\<close>

text \<open>
  Go's \<open>error\<close> values that \<open>Client\<close> meets: an errno of a system call, and
  \<open>os.PathError\<close> with its three fields in the order of the struct (\<open>Op\<close>, \<open>Path\<close>,
  \<open>Err\<close>). \<open>Client\<close> fills them by position, \<open>&os.PathError{nbd.Name(), "ioctl ...", err}\<close>,
  so the name of the device comes first and the name of the operation second.
\<close>

datatype error = Errno nat | PathError string string error

text \<open>
  What the operating system answers: the result of \<open>syscall.Socketpair\<close> (an error, or
  the two descriptors), of \<open>os.Open\<close> on a path (an error, or the descriptor \<open>Fd()\<close> of
  the file), and the errno of the \<open>SYS_IOCTL\<close> system call on three arguments. An
  answer depends on the arguments of the call alone; \<open>Client\<close> makes no call twice with
  the same arguments on a node it has claimed.
\<close>

record world =
  socketpair :: "error + (int \<times> int)"
  os_open :: "string \<Rightarrow> error + uintptr"
  sys_ioctl :: "uintptr \<Rightarrow> uintptr \<Rightarrow> uintptr \<Rightarrow> nat"

text \<open>The function \<open>ioctl\<close>: a non-zero errno becomes the error.\<close>

definition ioctl :: "world \<Rightarrow> uintptr \<Rightarrow> uintptr \<Rightarrow> uintptr \<Rightarrow> error option" where
  "ioctl w a1 a2 a3 =
     (let errno = sys_ioctl w a1 a2 a3 in if errno \<noteq> 0 then Some (Errno errno) else None)"

text \<open>The operations \<open>Client\<close> performs, in order; \<open>'dv\<close> is the type of the device.\<close>

datatype 'dv call =
    CallSocketpair
  | GoHandle int 'dv
  | LockOSThread
  | CallOpen string
  | CallIoctl uintptr uintptr uintptr
  | Println string
  | UnlockOSThread

text \<open>\<open>fmt.Sprintf("/dev/nbd%d", i)\<close> for \<open>i \<ge> 0\<close>.\<close>

fun itoa :: "nat \<Rightarrow> string" where
  "itoa n = (if n < 10 then [''0123456789'' ! n]
             else itoa (n div 10) @ [''0123456789'' ! (n mod 10)])"

declare itoa.simps [simp del]

definition nbd_path :: "nat \<Rightarrow> string" where
  "nbd_path i = ''/dev/nbd'' @ itoa i"

text \<open>
  The loop \<open>for i := 0; ; i++\<close> that looks for a free device. It has no bound, so it is
  a partial function: \<open>None\<close> when it runs forever. The index is a natural number here
  (the 64-bit \<open>int\<close> of Go does not wrap within any search that ends). It returns the error of \<open>os.Open\<close>,
  or the descriptor and the name of the device that took the socket.
\<close>

partial_function (option) find_nbd ::
  "world \<Rightarrow> uintptr \<Rightarrow> nat \<Rightarrow> 'dv call list \<Rightarrow> ((error + uintptr \<times> string) \<times> 'dv call list) option"
where
  "find_nbd w fd i tr =
     (case os_open w (nbd_path i) of
        Inl err \<Rightarrow> Some (Inl err, tr @ [CallOpen (nbd_path i)])
      | Inr nbd \<Rightarrow>
          (case ioctl w nbd NBD_SET_SOCK fd of
             None \<Rightarrow>
               Some (Inr (nbd, nbd_path i),
                     tr @ [CallOpen (nbd_path i), CallIoctl nbd NBD_SET_SOCK fd,
                           Println (''found /dev/nbd '' @ itoa i)])
           | Some err \<Rightarrow>
               find_nbd w fd (i + 1)
                 (tr @ [CallOpen (nbd_path i), CallIoctl nbd NBD_SET_SOCK fd])))"

text \<open>
  The chain of \<open>if err = ioctl(...); err != nil { ... } else if ...\<close>: each control
  operation runs only when all before it returned nil, and the first error is wrapped
  into a \<open>PathError\<close> with the name of the device and of the operation.
\<close>

definition control_calls :: "uintptr \<Rightarrow> 64 word \<Rightarrow> 'dv call list" where
  "control_calls nbd sz =
     [CallIoctl nbd NBD_SET_BLKSIZE 4096,
      CallIoctl nbd NBD_SET_SIZE_BLOCKS (word_of_int (sint sz sdiv 4096)),
      CallIoctl nbd NBD_SET_FLAGS 1,
      CallIoctl nbd BLKROSET 0,
      CallIoctl nbd NBD_DO_IT 0,
      CallIoctl nbd NBD_DISCONNECT 0,
      CallIoctl nbd NBD_CLEAR_SOCK 0]"

definition control :: "world \<Rightarrow> uintptr \<Rightarrow> string \<Rightarrow> 64 word \<Rightarrow> error option \<times> 'dv call list" where
  "control w nbd name sz =
     (case ioctl w nbd NBD_SET_BLKSIZE 4096 of
        Some err \<Rightarrow> (Some (PathError name ''ioctl NBD_SET_BLKSIZE'' err), take 1 (control_calls nbd sz))
      | None \<Rightarrow>
     (case ioctl w nbd NBD_SET_SIZE_BLOCKS (word_of_int (sint sz sdiv 4096)) of
        Some err \<Rightarrow> (Some (PathError name ''ioctl NBD_SET_SIZE_BLOCKS'' err), take 2 (control_calls nbd sz))
      | None \<Rightarrow>
     (case ioctl w nbd NBD_SET_FLAGS 1 of
        Some err \<Rightarrow> (Some (PathError name ''ioctl NBD_SET_FLAGS'' err), take 3 (control_calls nbd sz))
      | None \<Rightarrow>
     (case ioctl w nbd BLKROSET 0 of
        Some err \<Rightarrow> (Some (PathError name ''ioctl BLKROSET'' err), take 4 (control_calls nbd sz))
      | None \<Rightarrow>
     (case ioctl w nbd NBD_DO_IT 0 of
        Some err \<Rightarrow> (Some (PathError name ''ioctl NBD_DO_IT'' err), take 5 (control_calls nbd sz))
      | None \<Rightarrow>
     (case ioctl w nbd NBD_DISCONNECT 0 of
        Some err \<Rightarrow> (Some (PathError name ''ioctl NBD_DISCONNECT'' err), take 6 (control_calls nbd sz))
      | None \<Rightarrow>
     (case ioctl w nbd NBD_CLEAR_SOCK 0 of
        Some err \<Rightarrow> (Some (PathError name ''ioctl NBD_CLEAR_SOCK'' err), control_calls nbd sz)
      | None \<Rightarrow> (None, control_calls nbd sz))))))))"

text \<open>
  \<open>Client(d, offset, size)\<close>: the error returned (\<open>None\<close> for nil) and the operations
  performed; the outer \<open>None\<close> when the search never ends. The parameter \<open>offset\<close> is
  declared and not used.
\<close>

definition Client :: "world \<Rightarrow> 'dv \<Rightarrow> 64 word \<Rightarrow> 64 word \<Rightarrow> (error option \<times> 'dv call list) option" where
  "Client w d offset sz =
     (case socketpair w of
        Inl err \<Rightarrow> Some (Some err, [CallSocketpair])
      | Inr (fd0, fd1) \<Rightarrow>
          (case find_nbd w (word_of_int fd0) 0 [CallSocketpair, GoHandle fd1 d, LockOSThread] of
             None \<Rightarrow> None
           | Some (Inl err, tr) \<Rightarrow> Some (Some err, tr)
           | Some (Inr (nbd, name), tr) \<Rightarrow>
               (case control w nbd name sz of
                  (err, tr') \<Rightarrow> Some (err, tr @ tr' @ [UnlockOSThread]))))"

section \<open>Observations and sample inputs\<close>

text \<open>The byte strings handed to \<open>syscall.Write\<close>, in order.\<close>

fun writes :: "event list \<Rightarrow> byte list list" where
  "writes [] = []"
| "writes (SysWrite w # es) = w # writes es"
| "writes (e # es) = writes es"

text \<open>How a round ended: \<open>None\<close> when the loop goes on to the next round.\<close>

fun stopped :: "'d step \<Rightarrow> outcome option" where
  "stopped (Next s) = None"
| "stopped (Halt out s) = Some out"

text \<open>
  A backing store that answers every read with bytes of value \<open>v\<close>, transfers at most
  \<open>k\<close> bytes per call, and reports an error when that is fewer than asked.
\<close>

definition pattern_Device :: "byte \<Rightarrow> nat \<Rightarrow> unit Device" where
  "pattern_Device v k =
     \<lparr> ReadAt = (\<lambda>st p off. ((replicate (min k (length p)) v, int (min k (length p)), k < length p), st)),
       WriteAt = (\<lambda>st p off. ((int (min k (length p)), k < length p), st)) \<rparr>"

text \<open>The state in which \<open>handle\<close> enters its loop, for a given script of the peer.\<close>

definition boot :: "delivery list \<Rightarrow> unit state" where
  "boot fd = \<lparr>buf = replicate buf_size 0, sock = fd, dev = (), trace = []\<rparr>"

text \<open>
  Sample 28-byte frames: magic, type, handle, offset and length in big-endian order.
  The read and write frames below carry handle 7; \<open>read_frame\<close> asks for 512 bytes at
  offset 8192, \<open>write_frame\<close> announces 4096 bytes at offset 8192, the long frames ask
  for 1048561 and 1048549 bytes, and \<open>short_read_frame\<close> asks for 4 bytes.
\<close>

definition flush_frame :: "byte list" where
  "flush_frame = [0x25, 0x60, 0x95, 0x13,  0, 0, 0, 3,  0, 0, 0, 0, 0, 0, 0, 9,
                  0, 0, 0, 0, 0, 0, 0, 0,  0, 0, 0, 0]"

definition disc_frame :: "byte list" where
  "disc_frame = [0x25, 0x60, 0x95, 0x13,  0, 0, 0, 2,  0, 0, 0, 0, 0, 0, 0, 9,
                 0, 0, 0, 0, 0, 0, 0, 0,  0, 0, 0, 0]"

definition reply_magic_frame :: "byte list" where
  "reply_magic_frame = [0x67, 0x44, 0x66, 0x98,  0, 0, 0, 4,  0, 0, 0, 0, 0, 0, 0, 9,
                        0, 0, 0, 0, 0, 0, 0, 0,  0, 0, 0, 0]"

definition bad_magic_frame :: "byte list" where
  "bad_magic_frame = [0x12, 0x56, 0x09, 0x53,  0, 0, 0, 0,  0, 0, 0, 0, 0, 0, 0, 9,
                      0, 0, 0, 0, 0, 0, 0, 0,  0, 0, 0, 0]"

definition bad_type_frame :: "byte list" where
  "bad_type_frame = [0x25, 0x60, 0x95, 0x13,  0, 0, 0, 5,  0, 0, 0, 0, 0, 0, 0, 9,
                     0, 0, 0, 0, 0, 0, 0, 0,  0, 0, 0, 0]"

text \<open>
  What a read reply carries behind the bytes of the device when the device stored only
  \<open>k\<close> of the \<open>L\<close> bytes asked: the bytes that the buffer held at these positions
  before, the frame \<open>hb\<close> up to position 28 and the old buffer \<open>b\<close> from there on.
\<close>

definition stale :: "byte list \<Rightarrow> byte list \<Rightarrow> nat \<Rightarrow> nat \<Rightarrow> byte list" where
  "stale hb b k L = slice (hb @ drop 28 b) (16 + min L k) (16 + L)"

definition read_frame :: "byte list" where
  "read_frame = [0x25, 0x60, 0x95, 0x13,  0, 0, 0, 0,  0, 0, 0, 0, 0, 0, 0, 7,
                 0, 0, 0, 0, 0, 0, 0x20, 0,  0, 0, 2, 0]"

definition long_read_frame :: "byte list" where
  "long_read_frame = [0x25, 0x60, 0x95, 0x13,  0, 0, 0, 0,  0, 0, 0, 0, 0, 0, 0, 7,
                      0, 0, 0, 0, 0, 0, 0x20, 0,  0, 0x0F, 0xFF, 0xF1]"

definition short_read_frame :: "byte list" where
  "short_read_frame = [0x25, 0x60, 0x95, 0x13,  0, 0, 0, 0,  0, 0, 0, 0, 0, 0, 0, 7,
                       0x11, 0x22, 0x33, 0x44, 0x55, 0x66, 0x77, 0x88,  0, 0, 0, 4]"

text \<open>
  The counts asked of \<open>syscall.Read\<close> for the deliveries \<open>cs\<close> when \<open>r\<close> bytes are
  still missing: each read asks for all that is missing.
\<close>

fun read_counts :: "nat \<Rightarrow> byte list list \<Rightarrow> nat list" where
  "read_counts r [] = []"
| "read_counts r (c # cs) = r # read_counts (r - length c) cs"

text \<open>
  The counts asked while a payload of \<open>L\<close> bytes comes in as \<open>cs\<close>; the first read is
  made even when no byte is expected.
\<close>

definition payload_reads :: "nat \<Rightarrow> byte list list \<Rightarrow> nat list" where
  "payload_reads L cs = (if cs = [] then [L] else read_counts L cs)"

definition write_frame :: "byte list" where
  "write_frame = [0x25, 0x60, 0x95, 0x13,  0, 0, 0, 1,  0, 0, 0, 0, 0, 0, 0, 7,
                  0, 0, 0, 0, 0, 0, 0x20, 0,  0, 0, 0x10, 0]"

definition long_write_frame :: "byte list" where
  "long_write_frame = [0x25, 0x60, 0x95, 0x13,  0, 0, 0, 1,  0, 0, 0, 0, 0, 0, 0, 7,
                       0, 0, 0, 0, 0, 0, 0x20, 0,  0, 0x0F, 0xFF, 0xE5]"

text \<open>The operations of one round of the search on index \<open>j\<close>.\<close>

definition probe_calls :: "world \<Rightarrow> uintptr \<Rightarrow> nat \<Rightarrow> 'dv call list" where
  "probe_calls w fd j =
     (case os_open w (nbd_path j) of
        Inl err \<Rightarrow> [CallOpen (nbd_path j)]
      | Inr nbd \<Rightarrow> [CallOpen (nbd_path j), CallIoctl nbd NBD_SET_SOCK fd])"

text \<open>A system with two device nodes, both in use, on which no control operation fails otherwise.\<close>

definition busy_world :: world where
  "busy_world =
     \<lparr> socketpair = Inr (5, 6),
       os_open = (\<lambda>p. if p = ''/dev/nbd0'' then Inr 3 else if p = ''/dev/nbd1'' then Inr 4
                       else Inl (PathError ''open'' p (Errno 2))),
       sys_ioctl = (\<lambda>a1 a2 a3. if a2 = NBD_SET_SOCK then 16 else 0) \<rparr>"

text \<open>
  A system with one free device node. \<open>free_world e\<close> answers errno \<open>e\<close> to the blocking
  run operation and 0 to every other control operation.
\<close>

definition free_world :: "nat \<Rightarrow> world" where
  "free_world e =
     \<lparr> socketpair = Inr (5, 6),
       os_open = (\<lambda>p. if p = ''/dev/nbd0'' then Inr 3 else Inl (PathError ''open'' p (Errno 2))),
       sys_ioctl = (\<lambda>a1 a2 a3. if a2 = NBD_DO_IT then e else 0) \<rparr>"

section \<open>Facts about the codec, the buffer and one round of the loop\<close>

lemma length_PutUint32 [simp]: "length (PutUint32 v) = 4"
  by (simp add: PutUint32_def)

lemma Uint32_PutUint32: "Uint32 (PutUint32 v @ r) = v"
  unfolding Uint32_def PutUint32_def
  apply simp
  apply (rule bit_word_eqI)
  apply (auto simp: bit_simps)
  subgoal for n by (cases "24 \<le> n") auto
  done

lemma Uint32_append: "4 \<le> length a \<Longrightarrow> Uint32 (a @ r) = Uint32 a"
  by (auto simp: Uint32_def nth_append)

lemma Uint64_append: "8 \<le> length a \<Longrightarrow> Uint64 (a @ r) = Uint64 a"
  by (auto simp: Uint64_def nth_append)

lemma length_store: "off + length bs \<le> length b \<Longrightarrow> length (store b off bs) = length b"
  by (simp add: store_def)

lemma length_put_reply: "8 \<le> length b \<Longrightarrow> length (put_reply b e) = length b"
  by (simp add: put_reply_def length_store)

lemma sys_read_full: "sys_read k ds = Some (int k, bs, sk) \<Longrightarrow> length bs = k"
  by (auto simp: sys_read_def split: if_splits list.splits delivery.splits)

lemma store_0: "store b 0 hb = hb @ drop (length hb) b"
  by (simp add: store_def)

lemma slice_append: "hi \<le> length a \<Longrightarrow> slice (a @ r) lo hi = slice a lo hi"
  by (simp add: slice_def)

lemma decode_append: "28 \<le> length hb \<Longrightarrow> decode (hb @ r) = decode hb"
  by (simp add: decode_def slice_append Uint32_append)

lemma handle_body_frame:
  assumes "28 \<le> length (buf s)" and "sys_read 28 (sock s) = Some (28, hb, sk)"
  shows "handle_body d s =
           dispatch d (decode hb)
             (s\<lparr>buf := hb @ drop 28 (buf s), sock := sk, trace := trace s @ [SysRead 28]\<rparr>)"
proof -
  from assms(2) have "length hb = 28" using sys_read_full [of 28 "sock s" hb sk] by simp
  then show ?thesis using assms
    by (simp add: handle_body_def slice_ok_def store_0 decode_append)
qed

lemma put_reply_slice:
  assumes "16 \<le> hi" and "hi \<le> length b"
  shows "slice (put_reply b e) 0 hi = PutUint32 NBD_REPLY_MAGIC @ PutUint32 e @ slice b 8 hi"
  using assms by (simp add: put_reply_def store_def slice_def min_def drop_take)

lemma reply_of_bytes:
  "length h = 8 \<Longrightarrow>
   reply_of (PutUint32 m @ PutUint32 e @ h @ p) = \<lparr>rmagic = m, error' = e, rhandle = Uint64 h\<rparr>"
  using Uint32_PutUint32 [of e "[]"]
  by (simp add: reply_of_def Uint32_PutUint32 slice_def Uint64_append)

lemmas eval_decode = decode_def Uint32_def Uint64_def slice_def nbd_magics nbd_cmds

lemma flush_trim_step:
  assumes "28 \<le> length (buf s)" and "sys_read 28 (sock s) = Some (28, hb, sk)"
    and "magic (decode hb) = NBD_REPLY_MAGIC \<or> magic (decode hb) = NBD_REQUEST_MAGIC"
    and "typus (decode hb) = NBD_CMD_FLUSH \<or> typus (decode hb) = NBD_CMD_TRIM"
  shows "handle_body d s =
           Next (s\<lparr>buf := put_reply (hb @ drop 28 (buf s)) 1, sock := sk,
                   trace := trace s @ [SysRead 28,
                     SysWrite (PutUint32 NBD_REPLY_MAGIC @ PutUint32 1 @ slice hb 8 16)]\<rparr>)"
proof -
  from assms(2) have hb: "length hb = 28" using sys_read_full [of 28 "sock s" hb sk] by simp
  have "slice (put_reply (hb @ drop 28 (buf s)) 1) 0 16
          = PutUint32 NBD_REPLY_MAGIC @ PutUint32 1 @ slice hb 8 16"
    using hb by (simp add: put_reply_slice slice_append)
  moreover from assms(4)
  have "typus (decode hb) \<noteq> NBD_CMD_READ" "typus (decode hb) \<noteq> NBD_CMD_WRITE"
    "typus (decode hb) \<noteq> NBD_CMD_DISC"
    by (auto simp: nbd_cmds)
  ultimately show ?thesis
    using assms by (simp add: handle_body_frame dispatch_def cmd_flush_trim_def)
qed

lemma length_slice: "hi \<le> length b \<Longrightarrow> length (slice b lo hi) = hi - lo"
  by (simp add: slice_def)

lemma handle_of_frame: "length hb = 28 \<Longrightarrow> Uint64 (slice hb 8 16) = handle' (decode hb)"
  by (simp add: decode_def)

lemma handle_loop_Halt: "handle_body d s = Halt out s' \<Longrightarrow> handle_loop d s = (out, s')"
  by (simp add: handle_loop.simps [of d s])

lemma handle_loop_Next: "handle_body d s = Next s' \<Longrightarrow> handle_loop d s = handle_loop d s'"
  by (simp add: handle_loop.simps [of d s])

lemma recv_rest_stopped:
  "stopped (recv_rest l n s) = Some out \<Longrightarrow> out = Blocked \<or> out = Panic slice_panic"
proof (induction l n s rule: recv_rest.induct)
  case (1 l n s)
  show ?case
  proof (cases "(word_of_int n :: uint32) < l \<and> slice_ok (28 + n) (uint (28 + l)) (buf s)")
    case False
    with "1.prems" show ?thesis
      by (auto simp: recv_rest.simps [of l n s] split: if_splits)
  next
    case True
    then have lt: "(word_of_int n :: uint32) < l"
      and ok: "slice_ok (28 + n) (uint (28 + l)) (buf s)" by simp_all
    show ?thesis
    proof (cases "sys_read (nat (uint (28 + l) - (28 + n))) (sock s)")
      case None
      with lt ok "1.prems" show ?thesis by (simp add: recv_rest.simps [of l n s])
    next
      case (Some r)
      obtain m bs sk where r: "r = (m, bs, sk)" by (cases r)
      let ?s = "s\<lparr>buf := store (buf s) (nat (28 + n)) bs, sock := sk,
                   trace := trace s @ [SysRead (nat (uint (28 + l) - (28 + n)))]\<rparr>"
      from lt ok Some r "1.prems" have "stopped (recv_rest l (n + m) ?s) = Some out"
        by (simp add: recv_rest.simps [of l n s])
      then show ?thesis
      proof (rule "1.IH" [rotated -1])
        show "word_of_int n < l" by (rule lt)
        show "\<not> \<not> slice_ok (28 + n) (uint (28 + l)) (buf s)" using ok by simp
        show "sys_read (nat (uint (28 + l) - (28 + n))) (sock s) = Some r" by (rule Some)
        show "(m, bs, sk) = r" using r by simp
        show "(bs, sk) = (bs, sk)" by (rule refl)
      qed
    qed
  qed
qed

lemma cmd_read_stopped:
  "stopped (cmd_read d x s) = Some out \<Longrightarrow> out = Panic slice_panic"
  by (auto simp: cmd_read_def Let_def split: if_splits prod.splits)

lemma cmd_write_stopped:
  assumes "stopped (cmd_write d x s) = Some out"
  shows "out = Blocked \<or> out = Panic slice_panic"
proof (cases "slice_ok 28 (uint (28 + len x)) (buf s)")
  case False
  with assms show ?thesis by (simp add: cmd_write_def)
next
  case True
  note ok = this
  show ?thesis
  proof (cases "sys_read (unat (28 + len x) - 28) (sock s)")
    case None
    with ok assms show ?thesis by (simp add: cmd_write_def)
  next
    case (Some r)
    obtain n bs sk where r: "r = (n, bs, sk)" by (cases r)
    let ?s = "s\<lparr>buf := store (buf s) 28 bs, sock := sk,
                 trace := trace s @ [SysRead (unat (28 + len x) - 28)]\<rparr>"
    show ?thesis
    proof (cases "recv_rest (len x) n ?s")
      case (Next s')
      with ok Some r assms show ?thesis
        by (simp add: cmd_write_def Let_def split: prod.splits)
    next
      case (Halt out' s')
      with ok Some r assms have "out' = out" by (simp add: cmd_write_def)
      with Halt have "stopped (recv_rest (len x) n ?s) = Some out" by simp
      then show ?thesis by (rule recv_rest_stopped)
    qed
  qed
qed

lemma dispatch_invalid:
  "stopped (dispatch d x s) = Some (Panic ''Invalid packet'')
     \<longleftrightarrow> magic x \<noteq> NBD_REQUEST_MAGIC \<and> magic x \<noteq> NBD_REPLY_MAGIC"
  by (auto simp: dispatch_def cmd_flush_trim_def Let_def slice_panic_def
           dest: cmd_read_stopped cmd_write_stopped)

lemma unat_add_small:
  fixes l :: uint32
  assumes "k + unat l \<le> buf_size" 
  shows "unat (of_nat k + l) = k + unat l"
proof -
  have "k + unat l < 2 ^ 32" using assms by (simp add: buf_size_def)
  moreover have "k < 2 ^ 32" using assms by (simp add: buf_size_def)
  ultimately show ?thesis
    by (simp add: unat_word_ariths unat_of_nat)
qed

lemma unat_16_add: "16 + unat (l :: uint32) \<le> buf_size \<Longrightarrow> unat (16 + l) = 16 + unat l"
  using unat_add_small [of 16 l] by simp

lemma unat_28_add: "28 + unat (l :: uint32) \<le> buf_size \<Longrightarrow> unat (28 + l) = 28 + unat l"
  using unat_add_small [of 28 l] by simp

lemma uint_16_add: "16 + unat (l :: uint32) \<le> buf_size \<Longrightarrow> uint (16 + l) = int (16 + unat l)"
  using unat_16_add [of l] by (metis uint_nat)

lemma uint_28_add: "28 + unat (l :: uint32) \<le> buf_size \<Longrightarrow> uint (28 + l) = int (28 + unat l)"
  using unat_28_add [of l] by (metis uint_nat)

lemma slice_store_tail:
  assumes "off + length bs \<le> hi" and "hi \<le> length b" and "lo \<le> off"
  shows "slice (store b off bs) lo hi = slice b lo off @ bs @ slice b (off + length bs) hi"
proof -
  have a: "length (take off b) = off" using assms by simp
  have "drop lo (store b off bs) = drop lo (take off b) @ bs @ drop (off + length bs) b"
    using assms a by (simp add: store_def)
  moreover have "length (drop lo (take off b)) = off - lo" using a by simp
  ultimately have "slice (store b off bs) lo hi
      = drop lo (take off b) @ take (hi - lo - (off - lo)) (bs @ drop (off + length bs) b)"
    using assms by (simp add: slice_def)
  also have "hi - lo - (off - lo) = hi - off" using assms by simp
  also have "take (hi - off) (bs @ drop (off + length bs) b)
      = bs @ take (hi - off - length bs) (drop (off + length bs) b)"
    using assms by simp
  also have "drop lo (take off b) = slice b lo off" by (simp add: slice_def drop_take)
  also have "take (hi - off - length bs) (drop (off + length bs) b) = slice b (off + length bs) hi"
    by (simp add: slice_def)
  finally show ?thesis .
qed

lemma stale_Nil: "L \<le> k \<Longrightarrow> stale hb b k L = []"
  by (simp add: stale_def slice_def)

lemma length_stale:
  assumes "length hb = 28" and "length b = buf_size" and "16 + L \<le> buf_size"
  shows "length (take L data) + length (stale hb b (length data) L) = L"
proof -
  have "length (hb @ drop 28 b) = buf_size" using assms by (simp add: buf_size_def)
  with assms(3) have "length (stale hb b (length data) L) = 16 + L - (16 + min L (length data))"
    unfolding stale_def by (intro length_slice) simp
  then show ?thesis by simp
qed

lemma read_step:
  assumes len: "length (buf s) = buf_size"
    and rd: "sys_read 28 (sock s) = Some (28, hb, sk)"
    and mg: "magic (decode hb) = NBD_REQUEST_MAGIC \<or> magic (decode hb) = NBD_REPLY_MAGIC"
    and ty: "typus (decode hb) = NBD_CMD_READ"
    and fit: "16 + unat (len (decode hb)) \<le> buf_size"
    and dv: "ReadAt d (dev s) (slice (hb @ drop 28 (buf s)) 16 (16 + unat (len (decode hb))))
               (from' (decode hb)) = ((data, n, err), dv)"
  shows "handle_body d s =
           Next (s\<lparr>buf := put_reply (store (hb @ drop 28 (buf s)) 16
                                 (take (unat (len (decode hb))) data)) 0,
                   sock := sk, dev := dv,
                   trace := trace s @
                     [SysRead 28,
                      DevReadAt (unat (len (decode hb))) (from' (decode hb)),
                      SysWrite (PutUint32 NBD_REPLY_MAGIC @ PutUint32 0 @ slice hb 8 16 @
                                take (unat (len (decode hb))) data @
                                stale hb (buf s) (length data) (unat (len (decode hb))))]\<rparr>)"
proof -
  let ?x = "decode hb" and ?B = "hb @ drop 28 (buf s)"
  let ?L = "unat (len ?x)"
  let ?s1 = "s\<lparr>buf := ?B, sock := sk, trace := trace s @ [SysRead 28]\<rparr>"
  let ?b1 = "store ?B 16 (take ?L data)"
  from rd have hb: "length hb = 28" using sys_read_full [of 28 "sock s" hb sk] by simp
  from len have l28: "28 \<le> length (buf s)" by (simp add: buf_size_def)
  with hb len have lB: "length ?B = buf_size" by simp
  have u: "unat (16 + len ?x) = 16 + ?L" using fit by (rule unat_16_add)
  have ui: "uint (16 + len ?x) = int (16 + ?L)" using fit by (rule uint_16_add)
  have ok: "slice_ok 16 (uint (16 + len ?x)) ?B"
    unfolding slice_ok_def ui lB using fit by linarith
  have lb1: "length ?b1 = buf_size"
    using lB fit by (simp add: length_store)
  have "slice (put_reply ?b1 0) 0 (16 + ?L)
          = PutUint32 NBD_REPLY_MAGIC @ PutUint32 0 @ slice ?b1 8 (16 + ?L)"
    using lb1 fit by (simp add: put_reply_slice)
  also have "slice ?b1 8 (16 + ?L)
          = slice ?B 8 16 @ take ?L data @ slice ?B (16 + length (take ?L data)) (16 + ?L)"
    using lB fit by (intro slice_store_tail) simp_all
  also have "slice ?B 8 16 = slice hb 8 16" using hb by (simp add: slice_append)
  also have "slice ?B (16 + length (take ?L data)) (16 + ?L) = stale hb (buf s) (length data) ?L"
    by (simp add: stale_def min.commute)
  finally have w: "slice (put_reply ?b1 0) 0 (16 + ?L)
      = PutUint32 NBD_REPLY_MAGIC @ PutUint32 0 @ slice hb 8 16 @ take ?L data @
        stale hb (buf s) (length data) ?L" .
  have "handle_body d s = dispatch d ?x ?s1" using l28 rd by (rule handle_body_frame)
  also have "\<dots> = cmd_read d ?x ?s1" using mg ty by (auto simp: dispatch_def)
  also have "\<dots> = Next (?s1\<lparr>buf := put_reply ?b1 0, dev := dv,
        trace := trace ?s1 @ [DevReadAt ?L (from' ?x), SysWrite (slice (put_reply ?b1 0) 0 (16 + ?L))]\<rparr>)"
    using ok dv u by (simp add: cmd_read_def Let_def)
  finally show ?thesis by (simp add: w)
qed

lemma length_read_counts [simp]: "length (read_counts r cs) = length cs"
  by (induction cs arbitrary: r) simp_all

lemma sys_read_length: "sys_read k ds = Some (m, bs, sk) \<Longrightarrow> length bs \<le> k"
  by (auto simp: sys_read_def split: if_splits list.splits delivery.splits)

lemma store_Nil: "store b off [] = b"
  by (simp add: store_def)

lemma store_store:
  assumes "off + length c \<le> length b"
  shows "store (store b off c) (off + length c) cc = store b off (c @ cc)"
proof -
  have "length (take off b) = off" using assms by simp
  then show ?thesis using assms by (simp add: store_def ac_simps)
qed

lemma word_of_nat_less:
  fixes l :: uint32
  assumes "n \<le> unat l"
  shows "(of_nat n :: uint32) < l \<longleftrightarrow> n < unat l"
proof -
  have "unat l < 2 ^ 32" using unsigned_less [of l] by simp
  with assms have "n < 2 ^ 32" by simp
  then have "unat (of_nat n :: uint32) = n"
    by (simp add: unat_of_nat)
  then show ?thesis by (simp add: word_less_nat_alt)
qed

lemma recv_rest_chunks:
  assumes "\<forall>c\<in>set cs. c \<noteq> []"
    and "n + length (concat cs) = unat l"
    and "28 + unat l \<le> buf_size"
    and "length (buf s) = buf_size"
    and "sock s = map Data cs @ rest"
  shows "recv_rest l (int n) s =
           Next (s\<lparr>buf := store (buf s) (28 + n) (concat cs), sock := rest,
                   trace := trace s @ map SysRead (read_counts (unat l - n) cs)\<rparr>)"
  using assms
proof (induction cs arbitrary: n s)
  case Nil
  then have "n = unat l" by simp
  then have "\<not> (of_nat n :: uint32) < l" by (simp add: word_of_nat_less)
  then have "recv_rest l (int n) s = Next s" by (simp add: recv_rest.simps [of l "int n" s])
  with Nil show ?case by (simp add: store_Nil)
next
  case (Cons c cs)
  let ?L = "unat l"
  from Cons.prems have c: "c \<noteq> []" and cs: "\<forall>c\<in>set cs. c \<noteq> []" by simp_all
  from Cons.prems have sum: "n + length c + length (concat cs) = ?L" by simp
  with c have lt: "n < ?L" by (cases c) simp_all
  then have w: "(of_nat n :: uint32) < l" by (simp add: word_of_nat_less)
  have ui: "uint (28 + l) = int (28 + ?L)" using Cons.prems(3) by (rule uint_28_add)
  have ok: "slice_ok (28 + int n) (uint (28 + l)) (buf s)"
    unfolding slice_ok_def ui using lt Cons.prems(3,4) by linarith
  have k: "nat (uint (28 + l) - (28 + int n)) = ?L - n" unfolding ui by linarith
  have rd: "sys_read (?L - n) (sock s) = Some (int (length c), c, map Data cs @ rest)"
    using Cons.prems(5) sum lt by (simp add: sys_read_def)
  let ?s1 = "s\<lparr>buf := store (buf s) (28 + n) c, sock := map Data cs @ rest,
               trace := trace s @ [SysRead (?L - n)]\<rparr>"
  have step: "recv_rest l (int n) s = recv_rest l (int (n + length c)) ?s1"
    using w ok k rd by (simp add: recv_rest.simps [of l "int n" s] nat_add_distrib)
  have fitc: "28 + n + length c \<le> length (buf s)" using sum Cons.prems(3,4) by simp
  have "recv_rest l (int (n + length c)) ?s1 =
      Next (?s1\<lparr>buf := store (buf ?s1) (28 + (n + length c)) (concat cs), sock := rest,
              trace := trace ?s1 @ map SysRead (read_counts (?L - (n + length c)) cs)\<rparr>)"
  proof (rule Cons.IH)
    show "\<forall>c\<in>set cs. c \<noteq> []" by (rule cs)
    show "n + length c + length (concat cs) = ?L" by (rule sum)
    show "28 + ?L \<le> buf_size" by (rule Cons.prems(3))
    show "length (buf ?s1) = buf_size" using fitc Cons.prems(4) by (simp add: length_store)
    show "sock ?s1 = map Data cs @ rest" by simp
  qed
  moreover have "store (store (buf s) (28 + n) c) (28 + (n + length c)) (concat cs)
      = store (buf s) (28 + n) (c @ concat cs)"
    using store_store [of "28 + n" c "buf s" "concat cs"] fitc by (simp add: add.assoc)
  ultimately show ?case using step by simp
qed

lemma length_payload_reads: "length (payload_reads L cs) = max 1 (length cs)"
  by (cases cs) (simp_all add: payload_reads_def)

lemma slice_store_before:
  assumes "lo \<le> hi" and "hi \<le> off" and "off \<le> length b"
  shows "slice (store b off bs) lo hi = slice b lo hi"
proof -
  have a: "length (take off b) = off" using assms by simp
  have "drop lo (store b off bs) = drop lo (take off b) @ bs @ drop (off + length bs) b"
    using assms a by (simp add: store_def)
  moreover have "length (drop lo (take off b)) = off - lo" using a by simp
  ultimately have "slice (store b off bs) lo hi = take (hi - lo) (drop lo (take off b))"
    using assms by (simp add: slice_def)
  also have "\<dots> = take (hi - lo) (take (off - lo) (drop lo b))" by (simp add: drop_take)
  also have "\<dots> = take (hi - lo) (drop lo b)" using assms by (simp add: min_absorb1)
  finally show ?thesis by (simp add: slice_def)
qed

lemma slice_store_same:
  assumes "off + length bs \<le> length b"
  shows "slice (store b off bs) off (off + length bs) = bs"
  using assms by (simp add: slice_def store_def)

lemma payload_assembled:
  assumes nonempty: "\<forall>c\<in>set cs. c \<noteq> []"
    and total: "length (concat cs) = unat l"
    and fit: "28 + unat l \<le> buf_size"
    and len: "length (buf s) = buf_size"
    and sk: "sock s = map Data cs @ rest"
  shows "\<exists>n bs sk'. sys_read (unat l) (sock s) = Some (n, bs, sk')
           \<and> recv_rest l n (s\<lparr>buf := store (buf s) 28 bs, sock := sk',
                                 trace := trace s @ [SysRead (unat l)]\<rparr>)
               = Next (s\<lparr>buf := store (buf s) 28 (concat cs), sock := rest,
                         trace := trace s @ map SysRead (payload_reads (unat l) cs)\<rparr>)"
proof (cases cs)
  case Nil
  with total have z: "unat l = 0" by simp
  with Nil sk have rd: "sys_read (unat l) (sock s) = Some (0, [], rest)"
    by (simp add: sys_read_def)
  let ?s2 = "s\<lparr>buf := store (buf s) 28 [], sock := rest, trace := trace s @ [SysRead (unat l)]\<rparr>"
  have "recv_rest l (int 0) ?s2 =
      Next (?s2\<lparr>buf := store (buf ?s2) (28 + 0) (concat []), sock := rest,
              trace := trace ?s2 @ map SysRead (read_counts (unat l - 0) [])\<rparr>)"
    by (rule recv_rest_chunks) (simp_all add: z len store_Nil buf_size_def)
  with rd Nil show ?thesis by (simp add: store_Nil payload_reads_def)
next
  case (Cons c cs')
  with nonempty have c: "c \<noteq> []" and cs': "\<forall>c\<in>set cs'. c \<noteq> []" by simp_all
  from Cons total have sum: "length c + length (concat cs') = unat l" by simp
  with c have pos: "0 < unat l" by (cases c) simp_all
  from Cons sk sum pos
  have rd: "sys_read (unat l) (sock s) = Some (int (length c), c, map Data cs' @ rest)"
    by (simp add: sys_read_def)
  let ?s2 = "s\<lparr>buf := store (buf s) 28 c, sock := map Data cs' @ rest,
               trace := trace s @ [SysRead (unat l)]\<rparr>"
  have fitc: "28 + length c \<le> length (buf s)" using sum fit len by simp
  have "recv_rest l (int (length c)) ?s2 =
      Next (?s2\<lparr>buf := store (buf ?s2) (28 + length c) (concat cs'), sock := rest,
              trace := trace ?s2 @ map SysRead (read_counts (unat l - length c) cs')\<rparr>)"
  proof (rule recv_rest_chunks)
    show "\<forall>c\<in>set cs'. c \<noteq> []" by (rule cs')
    show "length c + length (concat cs') = unat l" by (rule sum)
    show "28 + unat l \<le> buf_size" by (rule fit)
    show "length (buf ?s2) = buf_size" using fitc len by (simp add: length_store)
    show "sock ?s2 = map Data cs' @ rest" by simp
  qed
  moreover have "store (store (buf s) 28 c) (28 + length c) (concat cs')
      = store (buf s) 28 (c @ concat cs')"
    using fitc by (rule store_store)
  ultimately show ?thesis using rd Cons by (simp add: payload_reads_def)
qed

lemma write_step:
  assumes len: "length (buf s) = buf_size"
    and rd: "sys_read 28 (sock s) = Some (28, hb, sk)"
    and mg: "magic (decode hb) = NBD_REQUEST_MAGIC \<or> magic (decode hb) = NBD_REPLY_MAGIC"
    and ty: "typus (decode hb) = NBD_CMD_WRITE"
    and fit: "28 + unat (len (decode hb)) \<le> buf_size"
    and sk: "sk = map Data cs @ rest"
    and nonempty: "\<forall>c\<in>set cs. c \<noteq> []"
    and total: "length (concat cs) = unat (len (decode hb))"
  shows "handle_body d s =
           Next (s\<lparr>buf := put_reply (store (hb @ drop 28 (buf s)) 28 (concat cs)) 0,
                   sock := rest,
                   dev := snd (WriteAt d (dev s) (concat cs) (from' (decode hb))),
                   trace := trace s @ SysRead 28 #
                     map SysRead (payload_reads (unat (len (decode hb))) cs) @
                     [DevWriteAt (concat cs) (from' (decode hb)),
                      SysWrite (PutUint32 NBD_REPLY_MAGIC @ PutUint32 0 @ slice hb 8 16)]\<rparr>)"
proof -
  let ?x = "decode hb" and ?B = "hb @ drop 28 (buf s)"
  let ?L = "unat (len ?x)" and ?P = "concat cs"
  let ?s1 = "s\<lparr>buf := ?B, sock := sk, trace := trace s @ [SysRead 28]\<rparr>"
  from rd have hb: "length hb = 28" using sys_read_full [of 28 "sock s" hb sk] by simp
  from len have l28: "28 \<le> length (buf s)" by (simp add: buf_size_def)
  with hb len have lB: "length ?B = buf_size" by simp
  have u: "unat (28 + len ?x) = 28 + ?L" using fit by (rule unat_28_add)
  have ui: "uint (28 + len ?x) = int (28 + ?L)" using fit by (rule uint_28_add)
  have ok: "slice_ok 28 (uint (28 + len ?x)) ?B"
    unfolding slice_ok_def ui lB using fit by linarith
  from payload_assembled [of cs "len ?x" ?s1 rest] nonempty total fit lB sk
  obtain n bs sk' where first: "sys_read ?L sk = Some (n, bs, sk')"
    and loop: "recv_rest (len ?x) n
                 (?s1\<lparr>buf := store ?B 28 bs, sock := sk', trace := trace ?s1 @ [SysRead ?L]\<rparr>)
               = Next (?s1\<lparr>buf := store ?B 28 ?P, sock := rest,
                         trace := trace ?s1 @ map SysRead (payload_reads ?L cs)\<rparr>)"
    by auto
  have fitP: "28 + length ?P \<le> length ?B" using total fit lB by simp
  have pay: "slice (store ?B 28 ?P) 28 (28 + ?L) = ?P"
    using slice_store_same [OF fitP] total by simp
  have lst: "length (store ?B 28 ?P) = buf_size" using fitP lB by (simp add: length_store)
  have "slice (put_reply (store ?B 28 ?P) 0) 0 16
      = PutUint32 NBD_REPLY_MAGIC @ PutUint32 0 @ slice (store ?B 28 ?P) 8 16"
    using lst by (simp add: put_reply_slice buf_size_def)
  also have "slice (store ?B 28 ?P) 8 16 = slice ?B 8 16"
    using lB by (simp add: slice_store_before buf_size_def)
  also have "slice ?B 8 16 = slice hb 8 16" using hb by (simp add: slice_append)
  finally have w: "slice (put_reply (store ?B 28 ?P) 0) 0 16
      = PutUint32 NBD_REPLY_MAGIC @ PutUint32 0 @ slice hb 8 16" .
  have "handle_body d s = dispatch d ?x ?s1" using l28 rd by (rule handle_body_frame)
  also have "\<dots> = cmd_write d ?x ?s1" using mg ty by (auto simp: dispatch_def nbd_cmds)
  also have "\<dots> = Next (s\<lparr>buf := put_reply (store ?B 28 ?P) 0, sock := rest,
        dev := snd (WriteAt d (dev s) ?P (from' ?x)),
        trace := trace s @ SysRead 28 # map SysRead (payload_reads ?L cs) @
          [DevWriteAt ?P (from' ?x), SysWrite (slice (put_reply (store ?B 28 ?P) 0) 0 16)]\<rparr>)"
    using ok first loop u pay
    by (simp add: cmd_write_def Let_def split: prod.splits)
  finally show ?thesis by (simp add: w)
qed

lemma writes_append [simp]: "writes (es @ fs) = writes es @ writes fs"
  by (induction es rule: writes.induct) simp_all

lemma writes_reads [simp]: "writes (map SysRead ks) = []"
  by (induction ks) simp_all

lemma error_of_bytes: "error' (reply_of (PutUint32 m @ PutUint32 e @ r)) = e"
  using Uint32_PutUint32 [of e "take 0 r"]
  by (simp add: reply_of_def slice_def Uint32_append)

lemma rmagic_of_bytes: "rmagic (reply_of (PutUint32 m @ r)) = m"
  by (simp add: reply_of_def Uint32_PutUint32)

lemma recv_rest_Next:
  "recv_rest l n s = Next s' \<Longrightarrow>
     length (buf s') = length (buf s) \<and> dev s' = dev s
     \<and> (\<exists>ks. trace s' = trace s @ map SysRead ks)"
proof (induction l n s rule: recv_rest.induct)
  case (1 l n s)
  show ?case
  proof (cases "(word_of_int n :: uint32) < l \<and> slice_ok (28 + n) (uint (28 + l)) (buf s)")
    case False
    with "1.prems" have "s' = s"
      by (auto simp: recv_rest.simps [of l n s] split: if_splits)
    then show ?thesis by simp
  next
    case True
    then have lt: "(word_of_int n :: uint32) < l"
      and ok: "slice_ok (28 + n) (uint (28 + l)) (buf s)" by simp_all
    let ?k = "nat (uint (28 + l) - (28 + n))"
    show ?thesis
    proof (cases "sys_read ?k (sock s)")
      case None
      with lt ok "1.prems" show ?thesis by (simp add: recv_rest.simps [of l n s])
    next
      case (Some r)
      obtain m bs sk where r: "r = (m, bs, sk)" by (cases r)
      let ?s = "s\<lparr>buf := store (buf s) (nat (28 + n)) bs, sock := sk,
                   trace := trace s @ [SysRead ?k]\<rparr>"
      from lt ok Some r "1.prems" have "recv_rest l (n + m) ?s = Next s'"
        by (simp add: recv_rest.simps [of l n s])
      then have ih: "length (buf s') = length (buf ?s) \<and> dev s' = dev ?s
          \<and> (\<exists>ks. trace s' = trace ?s @ map SysRead ks)"
      proof (rule "1.IH" [rotated -1])
        show "word_of_int n < l" by (rule lt)
        show "\<not> \<not> slice_ok (28 + n) (uint (28 + l)) (buf s)" using ok by simp
        show "sys_read ?k (sock s) = Some r" by (rule Some)
        show "(m, bs, sk) = r" using r by simp
        show "(bs, sk) = (bs, sk)" by (rule refl)
      qed
      from Some r have "length bs \<le> ?k" by (auto dest: sys_read_length)
      with ok have "nat (28 + n) + length bs \<le> length (buf s)"
        unfolding slice_ok_def by linarith
      then have "length (buf ?s) = length (buf s)" by (simp add: length_store)
      moreover from ih obtain ks where "trace s' = trace ?s @ map SysRead ks" by blast
      then have "trace s' = trace s @ map SysRead (?k # ks)" by simp
      then have "\<exists>ks. trace s' = trace s @ map SysRead ks" by (rule exI)
      ultimately show ?thesis using ih by simp
    qed
  qed
qed

lemma slice_ok_bounds:
  fixes w :: uint32
  assumes "slice_ok (int lo) (uint w) b"
  shows "lo \<le> unat w" and "unat w \<le> length b"
  using assms unfolding slice_ok_def by (simp_all only: uint_nat) linarith+

lemma cmd_read_buf:
  assumes "cmd_read d x s = Next s'" and "8 \<le> length (buf s)"
  shows "length (buf s') = length (buf s)"
proof -
  let ?hi = "unat (16 + len x)"
  from assms(1) have ok: "slice_ok 16 (uint (16 + len x)) (buf s)"
    by (auto simp: cmd_read_def split: if_splits)
  from slice_ok_bounds [of 16 "16 + len x" "buf s"] ok
  have lo: "16 \<le> ?hi" and hi: "?hi \<le> length (buf s)" by simp_all
  obtain data n err dv
    where r: "ReadAt d (dev s) (slice (buf s) 16 ?hi) (from' x) = ((data, n, err), dv)"
    by (metis prod_cases3 surj_pair)
  from assms(1) ok r
  have "buf s' = put_reply (store (buf s) 16 (take (?hi - 16) data)) 0"
    by (auto simp: cmd_read_def Let_def)
  moreover have "16 + length (take (?hi - 16) data) \<le> length (buf s)" using lo hi by simp
  then have "length (store (buf s) 16 (take (?hi - 16) data)) = length (buf s)"
    by (rule length_store)
  ultimately show ?thesis using assms(2) by (simp add: length_put_reply)
qed

lemma cmd_write_buf:
  assumes "cmd_write d x s = Next s'" and "8 \<le> length (buf s)"
  shows "length (buf s') = length (buf s)"
proof -
  let ?hi = "unat (28 + len x)"
  from assms(1) have ok: "slice_ok 28 (uint (28 + len x)) (buf s)"
    by (auto simp: cmd_write_def split: if_splits)
  from slice_ok_bounds [of 28 "28 + len x" "buf s"] ok
  have lo: "28 \<le> ?hi" and hi: "?hi \<le> length (buf s)" by simp_all
  from assms(1) ok obtain n bs sk where rd: "sys_read (?hi - 28) (sock s) = Some (n, bs, sk)"
    by (cases "sys_read (?hi - 28) (sock s)") (auto simp: cmd_write_def)
  let ?s2 = "s\<lparr>buf := store (buf s) 28 bs, sock := sk, trace := trace s @ [SysRead (?hi - 28)]\<rparr>"
  from assms(1) ok rd obtain s3 where rr: "recv_rest (len x) n ?s2 = Next s3"
    by (cases "recv_rest (len x) n ?s2") (auto simp: cmd_write_def)
  from assms(1) ok rd rr have "buf s' = put_reply (buf s3) 0"
    by (auto simp: cmd_write_def Let_def split: prod.splits)
  moreover from rr have "length (buf s3) = length (buf ?s2)" by (auto dest: recv_rest_Next)
  moreover from rd have "length bs \<le> ?hi - 28" by (rule sys_read_length)
  with lo hi have "28 + length bs \<le> length (buf s)" by simp
  then have "length (store (buf s) 28 bs) = length (buf s)" by (rule length_store)
  ultimately show ?thesis using assms(2) by (simp add: length_put_reply)
qed

text \<open>
  A round that goes on leaves the buffer at its size: in every round of \<open>handle\<close> the
  buffer has \<open>buf_size\<close> bytes.
\<close>

lemma handle_body_buf_size:
  assumes "handle_body d s = Next s'" and "length (buf s) = buf_size"
  shows "length (buf s') = buf_size"
proof -
  from assms(1) obtain n hb sk where rd: "sys_read 28 (sock s) = Some (n, hb, sk)"
    by (auto simp: handle_body_def split: if_splits option.splits)
  let ?s1 = "s\<lparr>buf := store (buf s) 0 hb, sock := sk, trace := trace s @ [SysRead 28]\<rparr>"
  from rd have "length hb \<le> 28" by (rule sys_read_length)
  with assms(2) have l1: "length (buf ?s1) = buf_size"
    by (simp add: length_store buf_size_def)
  then have l8: "8 \<le> length (buf ?s1)" by (simp add: buf_size_def)
  from assms(1) rd have "cmd_read d (decode (buf ?s1)) ?s1 = Next s'
      \<or> cmd_write d (decode (buf ?s1)) ?s1 = Next s' \<or> cmd_flush_trim ?s1 = Next s'"
    by (auto simp: handle_body_def dispatch_def Let_def split: if_splits)
  then have "length (buf s') = length (buf ?s1)"
  proof (elim disjE)
    assume "cmd_read d (decode (buf ?s1)) ?s1 = Next s'"
    then show ?thesis using l8 by (rule cmd_read_buf)
  next
    assume "cmd_write d (decode (buf ?s1)) ?s1 = Next s'"
    then show ?thesis using l8 by (rule cmd_write_buf)
  next
    assume "cmd_flush_trim ?s1 = Next s'"
    then have "buf s' = put_reply (buf ?s1) 1" by (auto simp: cmd_flush_trim_def Let_def)
    then show ?thesis using l8 by (simp add: length_put_reply)
  qed
  with l1 show ?thesis by simp
qed

section \<open>Facts about the search and the control sequence\<close>

lemma nbd_paths: "nbd_path 0 = ''/dev/nbd0''" "nbd_path 1 = ''/dev/nbd1''"
  "nbd_path (Suc 0) = ''/dev/nbd1''" "nbd_path 2 = ''/dev/nbd2''"
  by (simp_all add: nbd_path_def itoa.simps)

lemma find_nbd_busy:
  assumes "\<forall>j. i \<le> j \<and> j < N \<longrightarrow>
             (\<exists>nbd. os_open w (nbd_path j) = Inr nbd \<and> sys_ioctl w nbd NBD_SET_SOCK fd \<noteq> 0)"
    and "os_open w (nbd_path N) = Inl err"
    and "i \<le> N"
  shows "find_nbd w fd i tr = Some (Inl err, tr @ concat (map (probe_calls w fd) [i..<Suc N]))"
  using assms
proof (induction "N - i" arbitrary: i tr)
  case 0
  then have "i = N" by simp
  with "0.prems"(2) show ?case
    by (subst find_nbd.simps) (simp add: probe_calls_def)
next
  case (Suc k)
  then have lt: "i < N" by simp
  with Suc.prems(1) obtain nbd where op: "os_open w (nbd_path i) = Inr nbd"
    and busy: "sys_ioctl w nbd NBD_SET_SOCK fd \<noteq> 0" by auto
  have "find_nbd w fd (i + 1) (tr @ [CallOpen (nbd_path i), CallIoctl nbd NBD_SET_SOCK fd])
      = Some (Inl err, (tr @ [CallOpen (nbd_path i), CallIoctl nbd NBD_SET_SOCK fd])
                @ concat (map (probe_calls w fd) [i + 1..<Suc N]))"
  proof (rule Suc.hyps(1))
    show "k = N - (i + 1)" using Suc.hyps(2) by simp
    show "\<forall>j. i + 1 \<le> j \<and> j < N \<longrightarrow>
             (\<exists>nbd. os_open w (nbd_path j) = Inr nbd \<and> sys_ioctl w nbd NBD_SET_SOCK fd \<noteq> 0)"
      using Suc.prems(1) by simp
    show "os_open w (nbd_path N) = Inl err" by (rule Suc.prems(2))
    show "i + 1 \<le> N" using lt by simp
  qed
  moreover have "[i..<Suc N] = i # [i + 1..<Suc N]" using lt by (simp add: upt_conv_Cons)
  ultimately show ?case using op busy
    by (subst find_nbd.simps) (simp add: probe_calls_def ioctl_def)
qed

lemma find_nbd_ext:
  assumes "find_nbd w fd i tr = Some y"
  shows "\<exists>ext. snd y = tr @ ext \<and> (\<forall>a r b. CallIoctl a r b \<in> set ext \<longrightarrow> r = NBD_SET_SOCK)"
proof (rule find_nbd.raw_induct [where P = "\<lambda>w fd i tr y. \<exists>ext. snd y = tr @ ext
    \<and> (\<forall>a r b. CallIoctl a r b \<in> set ext \<longrightarrow> r = NBD_SET_SOCK)", OF _ assms], goal_cases)
  case (1 rec w fd i tr y)
  note IH = "1"(1) and eq = "1"(2)
  show ?case
  proof (cases "os_open w (nbd_path i)")
    case (Inl err)
    with eq show ?thesis by auto
  next
    case (Inr nbd)
    note op = this
    show ?thesis
    proof (cases "ioctl w nbd NBD_SET_SOCK fd")
      case None
      with op eq show ?thesis by auto
    next
      case (Some err)
      with op eq
      have "rec w fd (i + 1) (tr @ [CallOpen (nbd_path i), CallIoctl nbd NBD_SET_SOCK fd]) = Some y"
        by simp
      then obtain ext where "snd y = (tr @ [CallOpen (nbd_path i), CallIoctl nbd NBD_SET_SOCK fd]) @ ext"
        and "\<forall>a r b. CallIoctl a r b \<in> set ext \<longrightarrow> r = NBD_SET_SOCK"
        using IH by blast
      then have "snd y = tr @ ([CallOpen (nbd_path i), CallIoctl nbd NBD_SET_SOCK fd] @ ext)
          \<and> (\<forall>a r b. CallIoctl a r b \<in> set ([CallOpen (nbd_path i), CallIoctl nbd NBD_SET_SOCK fd] @ ext)
                 \<longrightarrow> r = NBD_SET_SOCK)"
        by auto
      then show ?thesis by blast
    qed
  qed
qed

lemma control_run:
  assumes "control w nbd name sz = (r, tc)"
    and "CallIoctl a NBD_DO_IT b \<in> set tc"
  shows "a = nbd \<and> b = 0
     \<and> (ioctl w nbd NBD_DO_IT 0 = None \<longrightarrow>
          tc = take 4 (control_calls nbd sz) @
               CallIoctl nbd NBD_DO_IT 0 # CallIoctl nbd NBD_DISCONNECT 0 #
               (if ioctl w nbd NBD_DISCONNECT 0 = None then [CallIoctl nbd NBD_CLEAR_SOCK 0] else []))
     \<and> (\<forall>err. ioctl w nbd NBD_DO_IT 0 = Some err \<longrightarrow>
          tc = take 4 (control_calls nbd sz) @ [CallIoctl nbd NBD_DO_IT 0]
          \<and> r = Some (PathError name ''ioctl NBD_DO_IT'' err))"
  using assms
  by (auto simp: control_def control_calls_def nbd_ioctls split: option.splits)

lemma Client_free_world:
  "Client (free_world e) () 0 1048576 =
     Some (if e = 0 then None else Some (PathError ''/dev/nbd0'' ''ioctl NBD_DO_IT'' (Errno e)),
           [CallSocketpair, GoHandle 6 (), LockOSThread,
            CallOpen ''/dev/nbd0'', CallIoctl 3 NBD_SET_SOCK 5, Println ''found /dev/nbd 0'',
            CallIoctl 3 NBD_SET_BLKSIZE 4096, CallIoctl 3 NBD_SET_SIZE_BLOCKS 256,
            CallIoctl 3 NBD_SET_FLAGS 1, CallIoctl 3 BLKROSET 0, CallIoctl 3 NBD_DO_IT 0] @
           (if e = 0 then [CallIoctl 3 NBD_DISCONNECT 0, CallIoctl 3 NBD_CLEAR_SOCK 0] else []) @
           [UnlockOSThread])"
proof -
  have "find_nbd (free_world e) 5 0 [CallSocketpair, GoHandle 6 (), LockOSThread] =
      Some (Inr (3, ''/dev/nbd0''),
            [CallSocketpair, GoHandle 6 (), LockOSThread,
             CallOpen ''/dev/nbd0'', CallIoctl 3 NBD_SET_SOCK 5, Println ''found /dev/nbd 0''])"
    by (subst find_nbd.simps)
      (simp add: free_world_def nbd_paths ioctl_def nbd_ioctls itoa.simps)
  moreover have "control (free_world e) 3 ''/dev/nbd0'' 1048576 =
      (if e = 0 then None else Some (PathError ''/dev/nbd0'' ''ioctl NBD_DO_IT'' (Errno e)),
       [CallIoctl 3 NBD_SET_BLKSIZE 4096, CallIoctl 3 NBD_SET_SIZE_BLOCKS 256,
        CallIoctl 3 NBD_SET_FLAGS 1, CallIoctl 3 BLKROSET 0, CallIoctl 3 NBD_DO_IT 0 :: unit call] @
       (if e = 0 then [CallIoctl 3 NBD_DISCONNECT 0, CallIoctl 3 NBD_CLEAR_SOCK 0] else []))"
    by (simp add: control_def control_calls_def free_world_def ioctl_def nbd_ioctls
        signed_divide_int_def)
  ultimately show ?thesis by (simp add: Client_def free_world_def)
qed

section \<open>Properties of the command loop and of the kernel binding\<close>

text \<open>
  C1 (as amended). For every flush and every trim frame that the loop reads in full,
  the round writes one 16-byte reply header and nothing after it, with the reply magic,
  the handle of the request and the error field 1 (not 0), makes no call of \<open>ReadAt\<close>
  or \<open>WriteAt\<close>, and goes on to the next round.
\<close>

theorem flush_trim_reply:
  assumes "length (buf s) = buf_size"
    and "sys_read 28 (sock s) = Some (28, hb, sk)"
    and "magic (decode hb) = NBD_REQUEST_MAGIC \<or> magic (decode hb) = NBD_REPLY_MAGIC"
    and "typus (decode hb) = NBD_CMD_FLUSH \<or> typus (decode hb) = NBD_CMD_TRIM"
  shows "\<exists>s' w. handle_body d s = Next s'
           \<and> trace s' = trace s @ [SysRead 28, SysWrite w]
           \<and> length w = 16
           \<and> reply_of w = \<lparr>rmagic = NBD_REPLY_MAGIC, error' = 1, rhandle = handle' (decode hb)\<rparr>
           \<and> dev s' = dev s \<and> sock s' = sk"
proof -
  from assms(2) have hb: "length hb = 28" using sys_read_full [of 28 "sock s" hb sk] by simp
  let ?w = "PutUint32 NBD_REPLY_MAGIC @ PutUint32 1 @ slice hb 8 16"
  from assms(1) have "28 \<le> length (buf s)" by (simp add: buf_size_def)
  with assms have "handle_body d s =
      Next (s\<lparr>buf := put_reply (hb @ drop 28 (buf s)) 1, sock := sk,
              trace := trace s @ [SysRead 28, SysWrite ?w]\<rparr>)"
    by (intro flush_trim_step) auto
  moreover have "length ?w = 16" using hb by (simp add: length_slice)
  moreover have "reply_of ?w = \<lparr>rmagic = NBD_REPLY_MAGIC, error' = 1, rhandle = handle' (decode hb)\<rparr>"
    using hb reply_of_bytes [of "slice hb 8 16" NBD_REPLY_MAGIC 1 "[]"]
    by (simp add: length_slice handle_of_frame)
  ultimately show ?thesis by simp
qed

theorem flush_trim_reply_witness:
  "\<exists>s' w. handle_body (pattern_Device 0 0) (boot [Data flush_frame]) = Next s'
     \<and> trace s' = [SysRead 28, SysWrite w] \<and> length w = 16
     \<and> reply_of w = \<lparr>rmagic = NBD_REPLY_MAGIC, error' = 1, rhandle = 9\<rparr>
     \<and> dev s' = () \<and> sock s' = []"
  using flush_trim_reply [of "boot [Data flush_frame]" flush_frame "[]" "pattern_Device 0 0"]
  by (simp add: boot_def sys_read_def flush_frame_def eval_decode)

text \<open>
  C1 as stated asks for the error field 0. On a flush frame the one reply written has
  the error field 1.
\<close>

theorem flush_trim_error_counterexample:
  "map (\<lambda>w. error' (reply_of w))
     (writes (trace (final (handle_body (pattern_Device 0 0) (boot [Data flush_frame])))))
   = [1]"
  using flush_trim_step [of "boot [Data flush_frame]" flush_frame "[]" "pattern_Device 0 0"]
  by (simp add: boot_def sys_read_def flush_frame_def eval_decode buf_size_def reply_of_def PutUint32_def)

text \<open>
  C2 (as amended). For every write frame that the loop reads in full, with a declared
  length \<open>L\<close> such that \<open>28 + L\<close> fits the scratch buffer, whose payload comes in as any
  number of non-empty deliveries \<open>cs\<close> of \<open>L\<close> bytes in all: the round reads until the
  \<open>L\<close> bytes are there (one read per delivery, each asking for what is still missing),
  only then calls \<open>WriteAt\<close>, once, with exactly these bytes at the offset of the
  request, and then writes a 16-byte reply header with error 0 and nothing after it.
\<close>

theorem write_assembles_payload:
  assumes "length (buf s) = buf_size"
    and "sys_read 28 (sock s) = Some (28, hb, map Data cs @ rest)"
    and "magic (decode hb) = NBD_REQUEST_MAGIC \<or> magic (decode hb) = NBD_REPLY_MAGIC"
    and "typus (decode hb) = NBD_CMD_WRITE"
    and "28 + unat (len (decode hb)) \<le> buf_size"
    and "\<forall>c\<in>set cs. c \<noteq> []"
    and "length (concat cs) = unat (len (decode hb))"
  shows "\<exists>s' hdr. handle_body d s = Next s'
           \<and> trace s' = trace s @ SysRead 28 #
                 map SysRead (payload_reads (unat (len (decode hb))) cs) @
                 [DevWriteAt (concat cs) (from' (decode hb)), SysWrite hdr]
           \<and> length (payload_reads (unat (len (decode hb))) cs) = max 1 (length cs)
           \<and> length hdr = 16
           \<and> reply_of hdr = \<lparr>rmagic = NBD_REPLY_MAGIC, error' = 0, rhandle = handle' (decode hb)\<rparr>
           \<and> sock s' = rest
           \<and> dev s' = snd (WriteAt d (dev s) (concat cs) (from' (decode hb)))"
proof -
  from assms(2) have hb: "length hb = 28"
    using sys_read_full [of 28 "sock s" hb "map Data cs @ rest"] by simp
  let ?hdr = "PutUint32 NBD_REPLY_MAGIC @ PutUint32 0 @ slice hb 8 16"
  have "handle_body d s =
      Next (s\<lparr>buf := put_reply (store (hb @ drop 28 (buf s)) 28 (concat cs)) 0,
              sock := rest,
              dev := snd (WriteAt d (dev s) (concat cs) (from' (decode hb))),
              trace := trace s @ SysRead 28 #
                map SysRead (payload_reads (unat (len (decode hb))) cs) @
                [DevWriteAt (concat cs) (from' (decode hb)), SysWrite ?hdr]\<rparr>)"
    using assms(1-5) refl assms(6,7) by (rule write_step)
  moreover have "length ?hdr = 16" using hb by (simp add: length_slice)
  moreover have "reply_of ?hdr =
      \<lparr>rmagic = NBD_REPLY_MAGIC, error' = 0, rhandle = handle' (decode hb)\<rparr>"
    using hb reply_of_bytes [of "slice hb 8 16" NBD_REPLY_MAGIC 0 "[]"]
    by (simp add: length_slice handle_of_frame)
  ultimately show ?thesis by (simp add: length_payload_reads)
qed

theorem write_assembles_payload_witness:
  "\<exists>s' hdr. handle_body (pattern_Device 0 4096)
       (boot [Data write_frame, Data (replicate 10 1), Data (replicate 4086 2)]) = Next s'
     \<and> trace s' = [SysRead 28, SysRead 4096, SysRead 4086,
                    DevWriteAt (replicate 10 1 @ replicate 4086 2) 8192, SysWrite hdr]
     \<and> length hdr = 16
     \<and> reply_of hdr = \<lparr>rmagic = NBD_REPLY_MAGIC, error' = 0, rhandle = 7\<rparr>
     \<and> sock s' = []"
  using write_assembles_payload [of
      "boot [Data write_frame, Data (replicate 10 1), Data (replicate 4086 2)]"
      write_frame "[replicate 10 1, replicate 4086 2]" "[]" "pattern_Device 0 4096"]
  by (simp add: boot_def sys_read_def write_frame_def eval_decode buf_size_def
      payload_reads_def)

text \<open>
  C2 as stated covers every declared length. A write of 1048549 bytes, one more than
  fits behind the 28 header bytes of the buffer, ends the loop in a slice panic before
  any payload is read: no \<open>WriteAt\<close>, no reply.
\<close>

theorem write_too_long_counterexample:
  "stopped (handle_body (pattern_Device 0 1048549)
      (boot [Data long_write_frame, Data (replicate 10 1), Data (replicate 1048539 2)]))
     = Some (Panic slice_panic)
   \<and> trace (final (handle_body (pattern_Device 0 1048549)
      (boot [Data long_write_frame, Data (replicate 10 1), Data (replicate 1048539 2)])))
     = [SysRead 28]"
proof -
  let ?d = "pattern_Device 0 1048549"
  let ?s = "boot [Data long_write_frame, Data (replicate 10 1), Data (replicate 1048539 2)]"
  let ?s1 = "?s\<lparr>buf := long_write_frame @ drop 28 (buf ?s),
                sock := [Data (replicate 10 1), Data (replicate 1048539 2)],
                trace := trace ?s @ [SysRead 28]\<rparr>"
  have "handle_body ?d ?s = dispatch ?d (decode long_write_frame) ?s1"
    by (rule handle_body_frame)
      (simp_all add: boot_def buf_size_def sys_read_def long_write_frame_def)
  then have "handle_body ?d ?s = Halt (Panic slice_panic) ?s1"
    by (simp add: dispatch_def cmd_write_def slice_ok_def boot_def buf_size_def
        long_write_frame_def eval_decode)
  then show ?thesis by (simp add: boot_def)
qed

text \<open>
  C3 (as amended). For every read frame that the loop reads in full, with length \<open>L\<close>,
  handle \<open>h\<close> and offset \<open>o\<close>, such that \<open>16 + L\<close> fits the scratch buffer and the
  device's \<open>ReadAt\<close> stores at least \<open>L\<close> bytes: the round calls \<open>ReadAt\<close> once, for
  \<open>L\<close> bytes at offset \<open>o\<close>, and writes one byte string, a 16-byte reply header with
  the reply magic, error 0 and handle \<open>h\<close>, followed at once by exactly the \<open>L\<close> bytes
  that the device stored.
\<close>

theorem read_reply:
  assumes "length (buf s) = buf_size"
    and "sys_read 28 (sock s) = Some (28, hb, sk)"
    and "magic (decode hb) = NBD_REQUEST_MAGIC \<or> magic (decode hb) = NBD_REPLY_MAGIC"
    and "typus (decode hb) = NBD_CMD_READ"
    and "16 + unat (len (decode hb)) \<le> buf_size"
    and "ReadAt d (dev s) (slice (hb @ drop 28 (buf s)) 16 (16 + unat (len (decode hb))))
           (from' (decode hb)) = ((data, n, err), dv)"
    and "unat (len (decode hb)) \<le> length data"
  shows "\<exists>s' hdr. handle_body d s = Next s'
           \<and> trace s' = trace s @
                 [SysRead 28,
                  DevReadAt (unat (len (decode hb))) (from' (decode hb)),
                  SysWrite (hdr @ take (unat (len (decode hb))) data)]
           \<and> length hdr = 16
           \<and> reply_of hdr = \<lparr>rmagic = NBD_REPLY_MAGIC, error' = 0, rhandle = handle' (decode hb)\<rparr>
           \<and> length (take (unat (len (decode hb))) data) = unat (len (decode hb))
           \<and> dev s' = dv"
proof -
  from assms(2) have hb: "length hb = 28" using sys_read_full [of 28 "sock s" hb sk] by simp
  let ?hdr = "PutUint32 NBD_REPLY_MAGIC @ PutUint32 0 @ slice hb 8 16"
  let ?L = "unat (len (decode hb))"
  have "handle_body d s =
      Next (s\<lparr>buf := put_reply (store (hb @ drop 28 (buf s)) 16 (take ?L data)) 0,
              sock := sk, dev := dv,
              trace := trace s @
                [SysRead 28, DevReadAt ?L (from' (decode hb)),
                 SysWrite (PutUint32 NBD_REPLY_MAGIC @ PutUint32 0 @ slice hb 8 16 @
                           take ?L data @ stale hb (buf s) (length data) ?L)]\<rparr>)"
    using assms(1-6) by (rule read_step)
  moreover have "stale hb (buf s) (length data) ?L = []" using assms(7) by (rule stale_Nil)
  moreover have "length ?hdr = 16" using hb by (simp add: length_slice)
  moreover have "reply_of ?hdr =
      \<lparr>rmagic = NBD_REPLY_MAGIC, error' = 0, rhandle = handle' (decode hb)\<rparr>"
    using hb reply_of_bytes [of "slice hb 8 16" NBD_REPLY_MAGIC 0 "[]"]
    by (simp add: length_slice handle_of_frame)
  moreover have "length (take ?L data) = ?L" using assms(7) by simp
  ultimately show ?thesis by simp
qed

theorem read_reply_witness:
  "\<exists>s' hdr. handle_body (pattern_Device 0xAB 512) (boot [Data read_frame]) = Next s'
     \<and> trace s' = [SysRead 28, DevReadAt 512 8192, SysWrite (hdr @ replicate 512 0xAB)]
     \<and> length hdr = 16
     \<and> reply_of hdr = \<lparr>rmagic = NBD_REPLY_MAGIC, error' = 0, rhandle = 7\<rparr>"
  using read_reply [of "boot [Data read_frame]" read_frame "[]" "pattern_Device 0xAB 512"
      "replicate 512 0xAB" 512 False "()"]
  by (simp add: boot_def sys_read_def read_frame_def eval_decode pattern_Device_def buf_size_def)

text \<open>
  C3 as stated covers every length and every device. A read of 1048561 bytes, one more
  than fits behind the 16 header bytes of the buffer, ends the loop in a slice panic with
  nothing written; and when the device stores only 2 of 4 bytes, the payload written is
  those 2 bytes followed by bytes 18 and 19 of the request frame left in the buffer.
\<close>

theorem read_reply_counterexample:
  "stopped (handle_body (pattern_Device 0xAB 1048561) (boot [Data long_read_frame]))
     = Some (Panic slice_panic)
   \<and> writes (trace (final (handle_body (pattern_Device 0xAB 1048561) (boot [Data long_read_frame]))))
     = []
   \<and> writes (trace (final (handle_body (pattern_Device 0xAB 2) (boot [Data short_read_frame]))))
     = [[0x67, 0x44, 0x66, 0x98, 0, 0, 0, 0, 0, 0, 0, 0, 0, 0, 0, 7, 0xAB, 0xAB, 0x33, 0x44]]"
proof -
  let ?d = "pattern_Device 0xAB 1048561"
  have "handle_body ?d (boot [Data long_read_frame]) =
      dispatch ?d (decode long_read_frame)
        ((boot [Data long_read_frame])\<lparr>buf := long_read_frame @ drop 28 (buf (boot [Data long_read_frame])),
           sock := [], trace := trace (boot [Data long_read_frame]) @ [SysRead 28]\<rparr>)"
    by (rule handle_body_frame)
      (simp_all add: boot_def buf_size_def sys_read_def long_read_frame_def)
  then have a: "handle_body ?d (boot [Data long_read_frame]) =
      Halt (Panic slice_panic)
        ((boot [Data long_read_frame])\<lparr>buf := long_read_frame @ drop 28 (buf (boot [Data long_read_frame])),
           sock := [], trace := trace (boot [Data long_read_frame]) @ [SysRead 28]\<rparr>)"
    by (simp add: dispatch_def cmd_read_def slice_ok_def boot_def buf_size_def
        long_read_frame_def eval_decode)
  have b: "writes (trace (final (handle_body (pattern_Device 0xAB 2) (boot [Data short_read_frame]))))
     = [[0x67, 0x44, 0x66, 0x98, 0, 0, 0, 0, 0, 0, 0, 0, 0, 0, 0, 7, 0xAB, 0xAB, 0x33, 0x44]]"
    using read_step [of "boot [Data short_read_frame]" short_read_frame "[]"
        "pattern_Device 0xAB 2" "[0xAB, 0xAB]" 2 True "()"]
    by (simp add: boot_def sys_read_def short_read_frame_def eval_decode pattern_Device_def
        buf_size_def stale_def PutUint32_def)
  from a b show ?thesis by (simp add: boot_def)
qed

text \<open>
  C4 (as amended). For every disconnect frame that the loop reads in full, the loop ends
  by the panic \<open>Disconnect\<close>, the way it ends on a framing error: no call of
  \<open>ReadAt\<close> or \<open>WriteAt\<close> is made, no reply is written, and nothing more is read.
\<close>

theorem disconnect_panics:
  assumes "length (buf s) = buf_size"
    and "sys_read 28 (sock s) = Some (28, hb, sk)"
    and "magic (decode hb) = NBD_REQUEST_MAGIC \<or> magic (decode hb) = NBD_REPLY_MAGIC"
    and "typus (decode hb) = NBD_CMD_DISC"
  shows "handle_loop d s =
           (Panic ''Disconnect'',
            s\<lparr>buf := hb @ drop 28 (buf s), sock := sk, trace := trace s @ [SysRead 28]\<rparr>)"
proof -
  from assms(1) have "28 \<le> length (buf s)" by (simp add: buf_size_def)
  with assms have "handle_body d s =
      Halt (Panic ''Disconnect'')
        (s\<lparr>buf := hb @ drop 28 (buf s), sock := sk, trace := trace s @ [SysRead 28]\<rparr>)"
    by (auto simp: handle_body_frame dispatch_def nbd_cmds)
  then show ?thesis by (rule handle_loop_Halt)
qed

theorem disconnect_panics_witness:
  "handle_loop (pattern_Device 0 0) (boot [Data disc_frame, Data flush_frame]) =
     (Panic ''Disconnect'',
      \<lparr>buf = disc_frame @ drop 28 (replicate buf_size 0), sock = [Data flush_frame],
       dev = (), trace = [SysRead 28]\<rparr>)"
  using disconnect_panics [of "boot [Data disc_frame, Data flush_frame]" disc_frame
      "[Data flush_frame]" "pattern_Device 0 0"]
  by (simp add: boot_def sys_read_def disc_frame_def eval_decode)

text \<open>
  C4 as stated asks for a clean end that is not an error. The function has no
  \<open>return\<close>; on a disconnect frame it ends in a panic.
\<close>

theorem disconnect_counterexample:
  "fst (handle [Data disc_frame] (pattern_Device 0 0) ()) = Panic ''Disconnect''"
proof -
  let ?s = "\<lparr>buf = replicate buf_size 0, sock = [Data disc_frame], dev = (), trace = []\<rparr>"
  have "handle_body (pattern_Device 0 0) ?s =
      dispatch (pattern_Device 0 0) (decode disc_frame)
        (?s\<lparr>buf := disc_frame @ drop 28 (buf ?s), sock := [], trace := trace ?s @ [SysRead 28]\<rparr>)"
    by (rule handle_body_frame) (simp_all add: buf_size_def sys_read_def disc_frame_def)
  then have "handle_body (pattern_Device 0 0) ?s =
      Halt (Panic ''Disconnect'')
        (?s\<lparr>buf := disc_frame @ drop 28 (buf ?s), sock := [], trace := trace ?s @ [SysRead 28]\<rparr>)"
    by (simp add: dispatch_def disc_frame_def eval_decode)
  then show ?thesis by (simp add: handle_def handle_loop_Halt)
qed

text \<open>
  C5. A frame whose magic is neither the request nor the reply magic, and a frame with
  one of the two magics whose type is none of read, write, disconnect, flush and trim,
  ends the loop in a panic: the final trace holds the read of the header and nothing
  else, so no reply is written and no further frame is read.
\<close>

theorem framing_violation_stops:
  assumes "length (buf s) = buf_size"
    and "sys_read 28 (sock s) = Some (28, hb, sk)"
    and "(magic (decode hb) \<noteq> NBD_REQUEST_MAGIC \<and> magic (decode hb) \<noteq> NBD_REPLY_MAGIC)
         \<or> typus (decode hb) \<notin> {NBD_CMD_READ, NBD_CMD_WRITE, NBD_CMD_DISC, NBD_CMD_FLUSH, NBD_CMD_TRIM}"
  shows "handle_loop d s =
           (Panic (if magic (decode hb) = NBD_REQUEST_MAGIC \<or> magic (decode hb) = NBD_REPLY_MAGIC
                   then ''unknown command'' else ''Invalid packet''),
            s\<lparr>buf := hb @ drop 28 (buf s), sock := sk, trace := trace s @ [SysRead 28]\<rparr>)"
proof -
  from assms(1) have "28 \<le> length (buf s)" by (simp add: buf_size_def)
  with assms have "handle_body d s =
      Halt (Panic (if magic (decode hb) = NBD_REQUEST_MAGIC \<or> magic (decode hb) = NBD_REPLY_MAGIC
                   then ''unknown command'' else ''Invalid packet''))
        (s\<lparr>buf := hb @ drop 28 (buf s), sock := sk, trace := trace s @ [SysRead 28]\<rparr>)"
    by (auto simp: handle_body_frame dispatch_def)
  then show ?thesis by (rule handle_loop_Halt)
qed

theorem framing_violation_stops_witness:
  "handle_loop (pattern_Device 0 0) (boot [Data bad_magic_frame, Data flush_frame]) =
     (Panic ''Invalid packet'',
      \<lparr>buf = bad_magic_frame @ drop 28 (replicate buf_size 0), sock = [Data flush_frame],
       dev = (), trace = [SysRead 28]\<rparr>)
   \<and> handle_loop (pattern_Device 0 0) (boot [Data bad_type_frame, Data flush_frame]) =
     (Panic ''unknown command'',
      \<lparr>buf = bad_type_frame @ drop 28 (replicate buf_size 0), sock = [Data flush_frame],
       dev = (), trace = [SysRead 28]\<rparr>)"
  using framing_violation_stops [of "boot [Data bad_magic_frame, Data flush_frame]" bad_magic_frame
      "[Data flush_frame]" "pattern_Device 0 0"]
    framing_violation_stops [of "boot [Data bad_type_frame, Data flush_frame]" bad_type_frame
      "[Data flush_frame]" "pattern_Device 0 0"]
  by (simp add: boot_def sys_read_def bad_magic_frame_def bad_type_frame_def eval_decode)

text \<open>
  C6 (as amended). A frame that the loop reads in full is refused as an invalid packet
  exactly when its magic is neither the request magic nor the reply magic, and then
  nothing is done for it beyond the read of the header; a frame with either magic is
  dispatched on its type.
\<close>

theorem invalid_iff_neither_magic:
  assumes "length (buf s) = buf_size"
    and "sys_read 28 (sock s) = Some (28, hb, sk)"
  shows "(stopped (handle_body d s) = Some (Panic ''Invalid packet'')
           \<longleftrightarrow> magic (decode hb) \<noteq> NBD_REQUEST_MAGIC \<and> magic (decode hb) \<noteq> NBD_REPLY_MAGIC)
       \<and> (stopped (handle_body d s) = Some (Panic ''Invalid packet'')
           \<longrightarrow> trace (final (handle_body d s)) = trace s @ [SysRead 28]
               \<and> dev (final (handle_body d s)) = dev s)"
proof -
  from assms(1) have l: "28 \<le> length (buf s)" by (simp add: buf_size_def)
  let ?s1 = "s\<lparr>buf := hb @ drop 28 (buf s), sock := sk, trace := trace s @ [SysRead 28]\<rparr>"
  have body: "handle_body d s = dispatch d (decode hb) ?s1"
    using l assms(2) by (rule handle_body_frame)
  then have iff: "stopped (handle_body d s) = Some (Panic ''Invalid packet'')
      \<longleftrightarrow> magic (decode hb) \<noteq> NBD_REQUEST_MAGIC \<and> magic (decode hb) \<noteq> NBD_REPLY_MAGIC"
    by (simp add: dispatch_invalid)
  have "magic (decode hb) \<noteq> NBD_REQUEST_MAGIC \<and> magic (decode hb) \<noteq> NBD_REPLY_MAGIC
      \<Longrightarrow> handle_body d s = Halt (Panic ''Invalid packet'') ?s1"
    using body by (simp add: dispatch_def)
  with iff show ?thesis by auto
qed

theorem invalid_iff_neither_magic_witness:
  "stopped (handle_body (pattern_Device 0 0) (boot [Data bad_magic_frame]))
     = Some (Panic ''Invalid packet'')
   \<and> trace (final (handle_body (pattern_Device 0 0) (boot [Data bad_magic_frame]))) = [SysRead 28]
   \<and> stopped (handle_body (pattern_Device 0 0) (boot [Data reply_magic_frame]))
     \<noteq> Some (Panic ''Invalid packet'')"
  using invalid_iff_neither_magic [of "boot [Data bad_magic_frame]" bad_magic_frame "[]"
      "pattern_Device 0 0"]
    invalid_iff_neither_magic [of "boot [Data reply_magic_frame]" reply_magic_frame "[]"
      "pattern_Device 0 0"]
  by (simp add: boot_def sys_read_def bad_magic_frame_def reply_magic_frame_def eval_decode)

text \<open>
  C6 as stated lets only the request magic through. A trim frame that carries the reply
  magic is dispatched and answered.
\<close>

theorem reply_magic_counterexample:
  "magic (decode reply_magic_frame) \<noteq> NBD_REQUEST_MAGIC
   \<and> stopped (handle_body (pattern_Device 0 0) (boot [Data reply_magic_frame])) = None
   \<and> writes (trace (final (handle_body (pattern_Device 0 0) (boot [Data reply_magic_frame]))))
       = [[0x67, 0x44, 0x66, 0x98, 0, 0, 0, 1, 0, 0, 0, 0, 0, 0, 0, 9]]"
  using flush_trim_step [of "boot [Data reply_magic_frame]" reply_magic_frame "[]"
      "pattern_Device 0 0"]
  by (simp add: boot_def sys_read_def reply_magic_frame_def eval_decode buf_size_def PutUint32_def)

text \<open>
  C7. For every read frame and every write frame that the loop reads in full, whose
  length fits the scratch buffer (and, for a write, whose payload comes in as non-empty
  deliveries of that length in all), and for every device, whatever bytes, count and
  error its \<open>ReadAt\<close> or \<open>WriteAt\<close> answers: the round calls the device once, then
  writes exactly one byte string, a reply with the reply magic, the handle of the request
  and the error field 0 (for a read it is followed by as many payload bytes as were
  asked, however few the device stored), and goes on to the next round.
\<close>

theorem read_write_error_zero:
  assumes "length (buf s) = buf_size"
    and "sys_read 28 (sock s) = Some (28, hb, sk)"
    and "magic (decode hb) = NBD_REQUEST_MAGIC \<or> magic (decode hb) = NBD_REPLY_MAGIC"
    and "typus (decode hb) = NBD_CMD_READ \<and> 16 + unat (len (decode hb)) \<le> buf_size
         \<or> typus (decode hb) = NBD_CMD_WRITE \<and> 28 + unat (len (decode hb)) \<le> buf_size
             \<and> sk = map Data cs @ rest \<and> (\<forall>c\<in>set cs. c \<noteq> [])
             \<and> length (concat cs) = unat (len (decode hb))"
  shows "\<exists>s' w. handle_body d s = Next s'
           \<and> trace s' = trace s @
                 (if typus (decode hb) = NBD_CMD_READ
                  then [SysRead 28, DevReadAt (unat (len (decode hb))) (from' (decode hb))]
                  else SysRead 28 # map SysRead (payload_reads (unat (len (decode hb))) cs) @
                       [DevWriteAt (concat cs) (from' (decode hb))])
                 @ [SysWrite w]
           \<and> writes (trace s') = writes (trace s) @ [w]
           \<and> length w = (if typus (decode hb) = NBD_CMD_READ
                          then 16 + unat (len (decode hb)) else 16)
           \<and> reply_of w = \<lparr>rmagic = NBD_REPLY_MAGIC, error' = 0, rhandle = handle' (decode hb)\<rparr>
           \<and> dev s' =
                 (if typus (decode hb) = NBD_CMD_READ
                  then snd (ReadAt d (dev s)
                         (slice (hb @ drop 28 (buf s)) 16 (16 + unat (len (decode hb))))
                         (from' (decode hb)))
                  else snd (WriteAt d (dev s) (concat cs) (from' (decode hb))))"
proof -
  let ?x = "decode hb"
  let ?L = "unat (len ?x)"
  from assms(2) have hb: "length hb = 28" using sys_read_full [of 28 "sock s" hb sk] by simp
  let ?h = "slice hb 8 16"
  have lh: "length ?h = 8" using hb by (simp add: length_slice)
  have rep: "\<And>p. reply_of (PutUint32 NBD_REPLY_MAGIC @ PutUint32 0 @ ?h @ p)
      = \<lparr>rmagic = NBD_REPLY_MAGIC, error' = 0, rhandle = handle' ?x\<rparr>"
    using hb lh by (simp add: reply_of_bytes handle_of_frame)
  from assms(4) show ?thesis
  proof
    assume a: "typus ?x = NBD_CMD_READ \<and> 16 + ?L \<le> buf_size"
    then have ty: "typus ?x = NBD_CMD_READ" and fit: "16 + ?L \<le> buf_size" by simp_all
    obtain data n err dv
      where r: "ReadAt d (dev s) (slice (hb @ drop 28 (buf s)) 16 (16 + ?L)) (from' ?x)
                  = ((data, n, err), dv)"
      by (metis prod_cases3 surj_pair)
    let ?w = "PutUint32 NBD_REPLY_MAGIC @ PutUint32 0 @ ?h @
              (take ?L data @ stale hb (buf s) (length data) ?L)"
    have step: "handle_body d s =
        Next (s\<lparr>buf := put_reply (store (hb @ drop 28 (buf s)) 16 (take ?L data)) 0,
                sock := sk, dev := dv,
                trace := trace s @ [SysRead 28, DevReadAt ?L (from' ?x), SysWrite ?w]\<rparr>)"
      using read_step [OF assms(1,2,3) ty fit r] by simp
    have "length ?w = 16 + ?L"
      using lh length_stale [OF hb assms(1) fit, of data] by simp
    moreover have "reply_of ?w = \<lparr>rmagic = NBD_REPLY_MAGIC, error' = 0, rhandle = handle' ?x\<rparr>"
      by (rule rep)
    ultimately show ?thesis using step ty r by simp
  next
    assume a: "typus ?x = NBD_CMD_WRITE \<and> 28 + ?L \<le> buf_size
             \<and> sk = map Data cs @ rest \<and> (\<forall>c\<in>set cs. c \<noteq> [])
             \<and> length (concat cs) = ?L"
    then have ty: "typus ?x = NBD_CMD_WRITE" and fit: "28 + ?L \<le> buf_size"
      and sk: "sk = map Data cs @ rest" and ne: "\<forall>c\<in>set cs. c \<noteq> []"
      and tot: "length (concat cs) = ?L" by simp_all
    from ty have nr: "typus ?x \<noteq> NBD_CMD_READ" by (simp add: nbd_cmds)
    let ?w = "PutUint32 NBD_REPLY_MAGIC @ PutUint32 0 @ ?h"
    have step: "handle_body d s =
        Next (s\<lparr>buf := put_reply (store (hb @ drop 28 (buf s)) 28 (concat cs)) 0,
                sock := rest,
                dev := snd (WriteAt d (dev s) (concat cs) (from' ?x)),
                trace := trace s @ SysRead 28 # map SysRead (payload_reads ?L cs) @
                  [DevWriteAt (concat cs) (from' ?x), SysWrite ?w]\<rparr>)"
      using assms(1,2,3) ty fit sk ne tot by (rule write_step)
    have "length ?w = 16" using lh by simp
    moreover have "reply_of ?w = \<lparr>rmagic = NBD_REPLY_MAGIC, error' = 0, rhandle = handle' ?x\<rparr>"
      using rep [of "[]"] by simp
    ultimately show ?thesis using step nr by simp
  qed
qed

theorem read_write_error_zero_witness:
  "ReadAt (pattern_Device 0xAB 0) () (replicate 512 0) 8192 = (([], 0, True), ())
   \<and> WriteAt (pattern_Device 0xAB 0) () (replicate 10 1 @ replicate 4086 2) 8192
       = ((0, True), ())
   \<and> (\<exists>s' w. handle_body (pattern_Device 0xAB 0) (boot [Data read_frame]) = Next s'
          \<and> trace s' = [SysRead 28, DevReadAt 512 8192, SysWrite w]
          \<and> length w = 528
          \<and> reply_of w = \<lparr>rmagic = NBD_REPLY_MAGIC, error' = 0, rhandle = 7\<rparr>)
   \<and> (\<exists>s' w. handle_body (pattern_Device 0xAB 0)
            (boot [Data write_frame, Data (replicate 10 1), Data (replicate 4086 2)]) = Next s'
          \<and> trace s' = [SysRead 28, SysRead 4096, SysRead 4086,
                         DevWriteAt (replicate 10 1 @ replicate 4086 2) 8192, SysWrite w]
          \<and> length w = 16
          \<and> reply_of w = \<lparr>rmagic = NBD_REPLY_MAGIC, error' = 0, rhandle = 7\<rparr>)"
proof -
  have dr: "ReadAt (pattern_Device 0xAB 0) () (replicate 512 0) 8192 = (([], 0, True), ())"
    and dw: "WriteAt (pattern_Device 0xAB 0) () (replicate 10 1 @ replicate 4086 2) 8192
       = ((0, True), ())"
    by (simp_all add: pattern_Device_def)
  have r: "\<exists>s' w. handle_body (pattern_Device 0xAB 0) (boot [Data read_frame]) = Next s'
          \<and> trace s' = [SysRead 28, DevReadAt 512 8192, SysWrite w]
          \<and> length w = 528
          \<and> reply_of w = \<lparr>rmagic = NBD_REPLY_MAGIC, error' = 0, rhandle = 7\<rparr>"
    using read_write_error_zero [of "boot [Data read_frame]" read_frame "[]" "[]" "[]"
        "pattern_Device 0xAB 0"]
    by (simp add: boot_def sys_read_def read_frame_def eval_decode buf_size_def) blast
  have w: "\<exists>s' w. handle_body (pattern_Device 0xAB 0)
            (boot [Data write_frame, Data (replicate 10 1), Data (replicate 4086 2)]) = Next s'
          \<and> trace s' = [SysRead 28, SysRead 4096, SysRead 4086,
                         DevWriteAt (replicate 10 1 @ replicate 4086 2) 8192, SysWrite w]
          \<and> length w = 16
          \<and> reply_of w = \<lparr>rmagic = NBD_REPLY_MAGIC, error' = 0, rhandle = 7\<rparr>"
    using read_write_error_zero [of
        "boot [Data write_frame, Data (replicate 10 1), Data (replicate 4086 2)]" write_frame
        "[Data (replicate 10 1), Data (replicate 4086 2)]"
        "[replicate 10 1, replicate 4086 2]" "[]" "pattern_Device 0xAB 0"]
    by (simp add: boot_def sys_read_def write_frame_def eval_decode buf_size_def
        payload_reads_def) blast
  from dr dw r w show ?thesis by blast
qed

text \<open>
  C8 (as amended). In every execution of the binding that issues the blocking run
  operation \<open>NBD_DO_IT\<close> on a device node: when the run operation returns success, the
  binding next issues \<open>NBD_DISCONNECT\<close> on that node and, when that succeeds too,
  \<open>NBD_CLEAR_SOCK\<close>; when the run operation returns an error, the binding issues no
  further control operation and returns that error, wrapped with the name of the
  operation.
\<close>

theorem release_after_run:
  assumes "Client w d offset sz = Some (r, tr)"
    and "CallIoctl nbd NBD_DO_IT a \<in> set tr"
  shows "(ioctl w nbd NBD_DO_IT 0 = None \<longrightarrow>
            (\<exists>pre. tr = pre @ CallIoctl nbd NBD_DO_IT 0 # CallIoctl nbd NBD_DISCONNECT 0 #
                     (if ioctl w nbd NBD_DISCONNECT 0 = None
                      then [CallIoctl nbd NBD_CLEAR_SOCK 0] else []) @ [UnlockOSThread]))
       \<and> (\<forall>err. ioctl w nbd NBD_DO_IT 0 = Some err \<longrightarrow>
            (\<exists>pre name. tr = pre @ [CallIoctl nbd NBD_DO_IT 0, UnlockOSThread]
                \<and> r = Some (PathError name ''ioctl NBD_DO_IT'' err)))"
proof -
  from assms(2) have "tr \<noteq> [CallSocketpair]" by auto
  with assms(1) obtain fd0 fd1 where sp: "socketpair w = Inr (fd0, fd1)"
    by (cases "socketpair w") (auto simp: Client_def)
  let ?t0 = "[CallSocketpair, GoHandle fd1 d, LockOSThread]"
  from assms(1) sp obtain res tf where f: "find_nbd w (word_of_int fd0) 0 ?t0 = Some (res, tf)"
    by (cases "find_nbd w (word_of_int fd0) 0 ?t0") (auto simp: Client_def)
  from find_nbd_ext [OF f] obtain ext where tf: "tf = ?t0 @ ext"
    and ext: "\<forall>a r b. CallIoctl a r b \<in> set ext \<longrightarrow> r = NBD_SET_SOCK" by auto
  have "NBD_DO_IT \<noteq> NBD_SET_SOCK" by (simp add: nbd_ioctls)
  with ext have "CallIoctl nbd NBD_DO_IT a \<notin> set ext" by blast
  then have notin: "CallIoctl nbd NBD_DO_IT a \<notin> set tf" by (simp add: tf)
  show ?thesis
  proof (cases res)
    case (Inl err)
    with assms(1) sp f have "tr = tf" by (simp add: Client_def)
    with notin assms(2) show ?thesis by simp
  next
    case (Inr p)
    obtain nbd' name where p: "p = (nbd', name)" by (cases p)
    obtain r' tc where c: "control w nbd' name sz = (r', tc :: 'a call list)"
      by (cases "control w nbd' name sz :: error option \<times> 'a call list")
    from assms(1) sp f Inr p c have tr: "tr = tf @ tc @ [UnlockOSThread]" and r: "r = r'"
      by (simp_all add: Client_def)
    with notin assms(2) have "CallIoctl nbd NBD_DO_IT a \<in> set tc" by auto
    from control_run [OF c this] have eq: "nbd = nbd'" "a = 0"
      and ok: "ioctl w nbd' NBD_DO_IT 0 = None \<longrightarrow>
          tc = take 4 (control_calls nbd' sz) @
               CallIoctl nbd' NBD_DO_IT 0 # CallIoctl nbd' NBD_DISCONNECT 0 #
               (if ioctl w nbd' NBD_DISCONNECT 0 = None then [CallIoctl nbd' NBD_CLEAR_SOCK 0] else [])"
      and bad: "\<forall>err. ioctl w nbd' NBD_DO_IT 0 = Some err \<longrightarrow>
          tc = take 4 (control_calls nbd' sz) @ [CallIoctl nbd' NBD_DO_IT 0]
          \<and> r' = Some (PathError name ''ioctl NBD_DO_IT'' err)"
      by simp_all
    show ?thesis
    proof (intro conjI impI allI)
      assume "ioctl w nbd NBD_DO_IT 0 = None"
      with ok eq have "tr = (tf @ take 4 (control_calls nbd sz)) @
          CallIoctl nbd NBD_DO_IT 0 # CallIoctl nbd NBD_DISCONNECT 0 #
          (if ioctl w nbd NBD_DISCONNECT 0 = None then [CallIoctl nbd NBD_CLEAR_SOCK 0] else [])
          @ [UnlockOSThread]"
        by (simp add: tr)
      then show "\<exists>pre. tr = pre @ CallIoctl nbd NBD_DO_IT 0 # CallIoctl nbd NBD_DISCONNECT 0 #
          (if ioctl w nbd NBD_DISCONNECT 0 = None then [CallIoctl nbd NBD_CLEAR_SOCK 0] else [])
          @ [UnlockOSThread]"
        by (rule exI)
    next
      fix err
      assume "ioctl w nbd NBD_DO_IT 0 = Some err"
      with bad eq have "tr = (tf @ take 4 (control_calls nbd sz)) @ [CallIoctl nbd NBD_DO_IT 0, UnlockOSThread]
          \<and> r = Some (PathError name ''ioctl NBD_DO_IT'' err)"
        by (simp add: tr r)
      then show "\<exists>pre name. tr = pre @ [CallIoctl nbd NBD_DO_IT 0, UnlockOSThread]
          \<and> r = Some (PathError name ''ioctl NBD_DO_IT'' err)"
        by blast
    qed
  qed
qed

theorem release_after_run_witness:
  "Client (free_world 0) () 0 1048576 =
     Some (None,
           [CallSocketpair, GoHandle 6 (), LockOSThread,
            CallOpen ''/dev/nbd0'', CallIoctl 3 NBD_SET_SOCK 5, Println ''found /dev/nbd 0'',
            CallIoctl 3 NBD_SET_BLKSIZE 4096, CallIoctl 3 NBD_SET_SIZE_BLOCKS 256,
            CallIoctl 3 NBD_SET_FLAGS 1, CallIoctl 3 BLKROSET 0, CallIoctl 3 NBD_DO_IT 0,
            CallIoctl 3 NBD_DISCONNECT 0, CallIoctl 3 NBD_CLEAR_SOCK 0, UnlockOSThread])
   \<and> (\<exists>pre. [CallSocketpair, GoHandle 6 (), LockOSThread,
            CallOpen ''/dev/nbd0'', CallIoctl 3 NBD_SET_SOCK 5, Println ''found /dev/nbd 0'',
            CallIoctl 3 NBD_SET_BLKSIZE 4096, CallIoctl 3 NBD_SET_SIZE_BLOCKS 256,
            CallIoctl 3 NBD_SET_FLAGS 1, CallIoctl 3 BLKROSET 0, CallIoctl 3 NBD_DO_IT 0,
            CallIoctl 3 NBD_DISCONNECT 0, CallIoctl 3 NBD_CLEAR_SOCK 0, UnlockOSThread]
          = pre @ [CallIoctl 3 NBD_DO_IT 0, CallIoctl 3 NBD_DISCONNECT 0,
                   CallIoctl 3 NBD_CLEAR_SOCK 0, UnlockOSThread :: unit call])"
proof -
  let ?tr = "[CallSocketpair, GoHandle 6 (), LockOSThread,
            CallOpen ''/dev/nbd0'', CallIoctl 3 NBD_SET_SOCK 5, Println ''found /dev/nbd 0'',
            CallIoctl 3 NBD_SET_BLKSIZE 4096, CallIoctl 3 NBD_SET_SIZE_BLOCKS 256,
            CallIoctl 3 NBD_SET_FLAGS 1, CallIoctl 3 BLKROSET 0, CallIoctl 3 NBD_DO_IT 0,
            CallIoctl 3 NBD_DISCONNECT 0, CallIoctl 3 NBD_CLEAR_SOCK 0, UnlockOSThread :: unit call]"
  have run: "Client (free_world 0) () 0 1048576 = Some (None, ?tr)"
    using Client_free_world [of 0] by simp
  have "CallIoctl 3 NBD_DO_IT 0 \<in> set ?tr" by simp
  from release_after_run [OF run this] run show ?thesis
    by (simp add: ioctl_def free_world_def nbd_ioctls)
qed

text \<open>
  C8 as stated covers a run operation that returns an error. When \<open>NBD_DO_IT\<close> fails
  with errno 4, the binding issues neither \<open>NBD_DISCONNECT\<close> nor \<open>NBD_CLEAR_SOCK\<close>.
\<close>

theorem failed_run_counterexample:
  "Client (free_world 4) () 0 1048576 =
     Some (Some (PathError ''/dev/nbd0'' ''ioctl NBD_DO_IT'' (Errno 4)),
           [CallSocketpair, GoHandle 6 (), LockOSThread,
            CallOpen ''/dev/nbd0'', CallIoctl 3 NBD_SET_SOCK 5, Println ''found /dev/nbd 0'',
            CallIoctl 3 NBD_SET_BLKSIZE 4096, CallIoctl 3 NBD_SET_SIZE_BLOCKS 256,
            CallIoctl 3 NBD_SET_FLAGS 1, CallIoctl 3 BLKROSET 0, CallIoctl 3 NBD_DO_IT 0,
            UnlockOSThread])"
  using Client_free_world [of 4] by simp

text \<open>
  C9. The binding tries the device nodes at the indices 0, 1, 2, ... in this order. When
  the first \<open>N\<close> nodes exist and refuse the socket, and node \<open>N\<close> cannot be opened, it
  opens each of the \<open>N\<close> nodes and asks it to take the socket, goes on to the next
  index after each refusal, and returns the error of the failed open: a non-nil error,
  not an endless search and not success.
\<close>

theorem search_exhausts_nodes:
  assumes "socketpair w = Inr (fd0, fd1)"
    and "\<forall>j<N. \<exists>nbd. os_open w (nbd_path j) = Inr nbd
                   \<and> sys_ioctl w nbd NBD_SET_SOCK (word_of_int fd0) \<noteq> 0"
    and "os_open w (nbd_path N) = Inl err"
  shows "Client w d offset sz =
           Some (Some err,
                 [CallSocketpair, GoHandle fd1 d, LockOSThread] @
                 concat (map (probe_calls w (word_of_int fd0)) [0..<N]) @
                 [CallOpen (nbd_path N)])"
proof -
  have "find_nbd w (word_of_int fd0) 0 [CallSocketpair, GoHandle fd1 d, LockOSThread]
      = Some (Inl err, [CallSocketpair, GoHandle fd1 d, LockOSThread]
                @ concat (map (probe_calls w (word_of_int fd0)) [0..<Suc N]))"
    using assms(2,3) by (intro find_nbd_busy) simp_all
  moreover have "probe_calls w (word_of_int fd0) N = ([CallOpen (nbd_path N)] :: 'a call list)"
    using assms(3) by (simp add: probe_calls_def)
  ultimately show ?thesis using assms(1) by (simp add: Client_def)
qed

theorem search_exhausts_nodes_witness:
  "Client busy_world () 0 1048576 =
     Some (Some (PathError ''open'' ''/dev/nbd2'' (Errno 2)),
           [CallSocketpair, GoHandle 6 (), LockOSThread,
            CallOpen ''/dev/nbd0'', CallIoctl 3 NBD_SET_SOCK 5,
            CallOpen ''/dev/nbd1'', CallIoctl 4 NBD_SET_SOCK 5,
            CallOpen ''/dev/nbd2''])"
proof -
  have h1: "socketpair busy_world = Inr (5, 6)" by (simp add: busy_world_def)
  have h2: "\<forall>j<2. \<exists>nbd. os_open busy_world (nbd_path j) = Inr nbd
                   \<and> sys_ioctl busy_world nbd NBD_SET_SOCK (word_of_int 5) \<noteq> 0"
  proof (intro allI impI)
    fix j :: nat
    assume "j < 2"
    then have "j = 0 \<or> j = 1" by auto
    then show "\<exists>nbd. os_open busy_world (nbd_path j) = Inr nbd
                   \<and> sys_ioctl busy_world nbd NBD_SET_SOCK (word_of_int 5) \<noteq> 0"
    proof
      assume "j = 0"
      then show ?thesis by (simp add: busy_world_def nbd_paths)
    next
      assume "j = 1"
      then show ?thesis by (simp add: busy_world_def nbd_paths)
    qed
  qed
  have h3: "os_open busy_world (nbd_path 2) = Inl (PathError ''open'' ''/dev/nbd2'' (Errno 2))"
    by (simp add: busy_world_def nbd_paths)
  have upt: "[0..<2] = [0, 1 :: nat]" by (simp add: upt_rec)
  have p0: "probe_calls busy_world 5 0 = ([CallOpen ''/dev/nbd0'', CallIoctl 3 NBD_SET_SOCK 5] :: unit call list)"
    and p1: "probe_calls busy_world 5 (Suc 0) = ([CallOpen ''/dev/nbd1'', CallIoctl 4 NBD_SET_SOCK 5] :: unit call list)"
    by (simp_all add: probe_calls_def busy_world_def nbd_paths)
  from search_exhausts_nodes [OF h1 h2 h3, of "()" 0 1048576]
  show ?thesis by (simp add: upt p0 p1 nbd_paths)
qed

text \<open>
  C10. \<open>Client\<close> never reads its parameter \<open>offset\<close>: with the same system, device and
  size, two calls that differ in \<open>offset\<close> alone perform the same operations in the same
  order and return the same result (or both search forever).
\<close>

theorem Client_ignores_offset:
  "Client w d o1 sz = Client w d o2 sz"
  by (simp add: Client_def)

end
